theory Spec2Isabelle
  imports
    Main
    "HOL-Library.Word"
    "HOL-Library.Char_ord"
    "HOL-Library.List_Lexorder"
    "HOL-Library.Finite_Map"
    "HOL-Library.Multiset"
begin

unbundle bit_operations_syntax

section \<open>Shared values\<close>

text \<open>
  Python exceptions are values of \<open>error\<close>; a call that may raise returns
  \<open>error + 'a\<close> (\<open>Inl\<close> the exception), and a call that also mutates state returns
  the exception, if any, next to the state it left behind.
\<close>

datatype error =
    PermissionError
  | FileNotFoundError
  | IsADirectoryError
  | SameFileError
  | ValueError
  | TypeError
  | UnicodeDecodeError
  | cv2_error
  | Exception string

text \<open>\<open>gouda.barcode.Barcode\<close>: a symbol type and a payload of raw bytes.\<close>

datatype barcode = Barcode (type: string) (data: string)

text \<open>
  What a strategy hands back to \<open>decode\<close>. The driver itself builds the two-element
  list \<open>[None, []]\<close>, and every sink unpacks \<open>strategy, barcodes = result\<close>, so an
  outcome is a two-element sequence; a strategy that declines returns \<open>None\<close> or
  some other falsy value such as an empty sequence.
\<close>

datatype result =
    PyNone
  | PyEmpty
  | Outcome "string option" "barcode list"

text \<open>
  Python's truth value, as \<open>if result:\<close> tests it: \<open>None\<close> and an empty sequence are
  false, a sequence of two elements is true whatever the elements are.
\<close>

fun truthy :: "result \<Rightarrow> bool" where
  "truthy PyNone = False"
| "truthy PyEmpty = False"
| "truthy (Outcome strategy barcodes) = True"

text \<open>
  A \<open>pathlib\<close> path is the list of its parts; paths compare part by part, each part
  as a string, which is the lexicographic order of \<open>string list\<close>.
\<close>

type_synonym path = "string list"

section \<open>The traversal driver: \<open>decode\<close>\<close>

text \<open>
  An element of \<open>paths\<close> together with what the filesystem answers when \<open>decode\<close>
  asks about it. \<open>p.is_dir()\<close> is false for a \<open>RegularFile\<close>, whose second field
  is \<open>read_image(p, read_greyscale)\<close> as a function of the flag (an exception, no
  image, or an image). It is true for a \<open>Directory\<close>, which carries what
  \<open>p.iterdir()\<close> yields, and for an \<open>UnreadableDirectory\<close>, whose listing raises
  (a directory without read permission). For an \<open>Inaccessible\<close> path the query
  \<open>p.is_dir()\<close> itself raises (an entry of a directory without search permission).
\<close>

datatype 'img entry =
    RegularFile path "bool \<Rightarrow> error + 'img option"
  | Directory path "'img entry list"
  | UnreadableDirectory path error
  | Inaccessible path error

fun path_of :: "'img entry \<Rightarrow> path" where
  "path_of (RegularFile p loaded) = p"
| "path_of (Directory p children) = p"
| "path_of (UnreadableDirectory p e) = p"
| "path_of (Inaccessible p e) = p"

text \<open>A strategy is called as \<open>strategy(img, engine)\<close> and may raise.\<close>

type_synonym ('img, 'eng) strategy = "'img \<Rightarrow> 'eng \<Rightarrow> error + result"

text \<open>
  A sink is called as \<open>visitor.result(p, result)\<close>; it changes the world \<open>'w\<close> (its own
  fields, the console, the disk) and may raise after having changed it.
\<close>

type_synonym 'w visitor = "path \<Rightarrow> result \<Rightarrow> 'w \<Rightarrow> error option \<times> 'w"

text \<open>
  The run's observable history: \<open>Call i p r\<close> is the invocation
  \<open>visitors[i].result(p, r)\<close>, \<open>ErrorProcessing p e\<close> is the handler's report
  \<open>Error processing [p]\<close> followed by the trace of \<open>e\<close>.
\<close>

datatype event =
    Call nat path result
  | ErrorProcessing path error

type_synonym 'w state = "'w \<times> event list"

text \<open>\<open>for visitor in visitors: visitor.result(p, result)\<close>, from the sink at index \<open>i\<close>.\<close>

fun notify :: "'w visitor list \<Rightarrow> nat \<Rightarrow> path \<Rightarrow> result \<Rightarrow> 'w state \<Rightarrow> error option \<times> 'w state" where
  "notify [] i p r s = (None, s)"
| "notify (v # vs) i p r (w, t) =
     (case v p r w of
        (Some e, w') \<Rightarrow> (Some e, (w', t @ [Call i p r]))
      | (None, w') \<Rightarrow> notify vs (Suc i) p r (w', t @ [Call i p r]))"

text \<open>
  The strategy loop with its \<open>else\<close> clause: the first truthy result breaks out, and
  a loop that runs to its end leaves \<open>[None, []]\<close>.
\<close>

fun chain :: "('img, 'eng) strategy list \<Rightarrow> 'img \<Rightarrow> 'eng \<Rightarrow> error + result" where
  "chain [] img engine = Inr (Outcome None [])"
| "chain (strategy # strategies) img engine =
     (case strategy img engine of
        Inl e \<Rightarrow> Inl e
      | Inr r \<Rightarrow> if truthy r then Inr r else chain strategies img engine)"

text \<open>The body of the \<open>try\<close> for one file.\<close>

definition try_file ::
  "('img, 'eng) strategy list \<Rightarrow> 'eng \<Rightarrow> 'w visitor list \<Rightarrow> path \<Rightarrow> error + 'img option \<Rightarrow>
   'w state \<Rightarrow> error option \<times> 'w state" where
  "try_file strategies engine visitors p img s =
     (case img of
        Inl e \<Rightarrow> (Some e, s)
      | Inr None \<Rightarrow> notify visitors 0 p (Outcome None []) s
      | Inr (Some i) \<Rightarrow>
          (case chain strategies i engine of
             Inl e \<Rightarrow> (Some e, s)
           | Inr r \<Rightarrow> notify visitors 0 p r s))"

text \<open>The \<open>try\<close> with its \<open>except Exception\<close>: an exception ends as a report.\<close>

definition process_file ::
  "('img, 'eng) strategy list \<Rightarrow> 'eng \<Rightarrow> 'w visitor list \<Rightarrow> path \<Rightarrow> error + 'img option \<Rightarrow>
   'w state \<Rightarrow> 'w state" where
  "process_file strategies engine visitors p img s =
     (case try_file strategies engine visitors p img s of
        (Some e, (w, t)) \<Rightarrow> (w, t @ [ErrorProcessing p e])
      | (None, s') \<Rightarrow> s')"

lemma size_list_insort_key:
  "size_list f (insort_key k x xs) = size_list f (x # xs)"
  by (induction xs) auto

lemma size_list_sort_key: "size_list f (sort_key k xs) = size_list f xs"
  by (induction xs) (auto simp: size_list_insort_key)

text \<open>
  \<open>decode\<close> sorts what it is given and hands it to the loop \<open>visit\<close>. The test
  \<open>p.is_dir()\<close> and the recursive call for a directory are outside the \<open>try\<close>, so
  an exception of the test, of the listing or from inside the recursive call (first
  component \<open>Some\<close>) leaves the caller too.
\<close>

function
  decode :: "'img entry list \<Rightarrow> ('img, 'eng) strategy list \<Rightarrow> 'eng \<Rightarrow> 'w visitor list \<Rightarrow> bool \<Rightarrow>
    'w state \<Rightarrow> error option \<times> 'w state"
and
  visit :: "'img entry list \<Rightarrow> ('img, 'eng) strategy list \<Rightarrow> 'eng \<Rightarrow> 'w visitor list \<Rightarrow> bool \<Rightarrow>
    'w state \<Rightarrow> error option \<times> 'w state"
where
  "decode paths strategies engine visitors read_greyscale s =
     visit (sort_key path_of paths) strategies engine visitors read_greyscale s"
| "visit [] strategies engine visitors read_greyscale s = (None, s)"
| "visit (Directory p children # ps) strategies engine visitors read_greyscale s =
     (case decode children strategies engine visitors read_greyscale s of
        (Some e, s') \<Rightarrow> (Some e, s')
      | (None, s') \<Rightarrow> visit ps strategies engine visitors read_greyscale s')"
| "visit (UnreadableDirectory p e # ps) strategies engine visitors read_greyscale s = (Some e, s)"
| "visit (Inaccessible p e # ps) strategies engine visitors read_greyscale s = (Some e, s)"
| "visit (RegularFile p loaded # ps) strategies engine visitors read_greyscale s =
     visit ps strategies engine visitors read_greyscale
       (process_file strategies engine visitors p (loaded read_greyscale) s)"
  by pat_completeness auto
termination
  by (relation "measure (\<lambda>x. case x of
        Inl (paths, _) \<Rightarrow> 2 * size_list size paths + 1
      | Inr (paths, _) \<Rightarrow> 2 * size_list size paths)")
     (auto simp: size_list_sort_key)

section \<open>The region decoder: \<open>Decoder\<close>\<close>

subsection \<open>Arrays and the OpenCV operations on them\<close>

text \<open>
  A single-channel 8-bit array is a list of rows of \<open>uint8\<close> pixels. An image as
  \<open>cv2.imread\<close> delivers it is such an array (\<open>Grey\<close>) or an array of another
  shape (\<open>Colour\<close>), which \<open>cv2.cvtColor\<close> turns into one.
\<close>

type_synonym pixel = "8 word"

type_synonym array = "pixel list list"

datatype 'c image = Grey array | Colour 'c

text \<open>
  OpenCV is not part of the repository. The three operations of the decoder that
  compute in floating point are taken as they are, each with the exception it may
  raise: \<open>cvtColor(img, COLOR_BGR2GRAY)\<close>, \<open>GaussianBlur(crop, (0, 0), 10)\<close> and
  \<open>addWeighted(crop, 1.5, blur, -0.5, 0)\<close>. So is one decision of OpenCV's,
  \<open>scalar_operand\<close>, explained below.
\<close>

record 'c cv2 =
  cvtColor :: "'c \<Rightarrow> error + array"
  GaussianBlur :: "array \<Rightarrow> error + array"
  addWeighted :: "array \<Rightarrow> array \<Rightarrow> error + array"
  scalar_operand :: "array \<Rightarrow> bool"

text \<open>
  The integer operations on \<open>uint8\<close> arrays are written out. OpenCV saturates:
  a sum above 255 is 255 and a difference below 0 is 0.
\<close>

definition saturate_add :: "pixel \<Rightarrow> pixel \<Rightarrow> pixel" where
  "saturate_add a b = (if 255 < unat a + unat b then 255 else a + b)"

definition saturate_subtract :: "pixel \<Rightarrow> pixel \<Rightarrow> pixel" where
  "saturate_subtract a b = (if unat a < unat b then 0 else a - b)"

text \<open>\<open>cv2.compare(src, value, cv2.CMP_GE)\<close>: 255 where the test holds, 0 elsewhere.\<close>

definition compare_GE :: "array \<Rightarrow> pixel \<Rightarrow> array" where
  "compare_GE src v = map (map (\<lambda>p. if v \<le> p then 255 else 0)) src"

text \<open>\<open>cv2.bitwise_not(src)\<close>.\<close>

definition bitwise_not :: "array \<Rightarrow> array" where
  "bitwise_not src = map (map (\<lambda>p. NOT p)) src"

text \<open>An array of four rows and one column.\<close>

definition four_by_one :: "array \<Rightarrow> bool" where
  "four_by_one a = (length a = 4 \<and> list_all (\<lambda>row. length row = 1) a)"

text \<open>
  \<open>cv2.add(src, value, mask=mask)\<close> and \<open>cv2.subtract(src, value, mask=mask)\<close> with a
  Python \<open>int\<close> as \<open>value\<close>. The binding hands the \<open>int\<close> to OpenCV as an array of
  four rows and one column of \<open>float64\<close>, and OpenCV computes array and scalar only
  when it takes that array for a scalar. Next to a \<open>src\<close> of four rows and one column
  it does not: the two shapes agree, the element types differ, and the call raises
  \<open>cv2.error\<close>. For a \<open>src\<close> of any other shape the decision is OpenCV's, given by
  \<open>scalar_operand\<close>; the call raises when OpenCV does not take the \<open>int\<close> for a
  scalar. Otherwise the operation is applied where the mask is not zero; the output
  array is new, and its elements outside the mask are zero.
\<close>

definition add_scalar :: "'c cv2 \<Rightarrow> array \<Rightarrow> pixel \<Rightarrow> array \<Rightarrow> error + array" where
  "add_scalar cv src v msk =
     (if four_by_one src \<or> \<not> scalar_operand cv src then Inl cv2_error
      else Inr (map2 (map2 (\<lambda>p m. if m \<noteq> 0 then saturate_add p v else 0)) src msk))"

definition subtract_scalar :: "'c cv2 \<Rightarrow> array \<Rightarrow> pixel \<Rightarrow> array \<Rightarrow> error + array" where
  "subtract_scalar cv src v msk =
     (if four_by_one src \<or> \<not> scalar_operand cv src then Inl cv2_error
      else Inr (map2 (map2 (\<lambda>p m. if m \<noteq> 0 then saturate_subtract p v else 0)) src msk))"

text \<open>\<open>cv2.add(src1, src2)\<close> of two arrays of one shape.\<close>

definition add_arrays :: "array \<Rightarrow> array \<Rightarrow> array" where
  "add_arrays src1 src2 = map2 (map2 saturate_add) src1 src2"

text \<open>
  A Python slice \<open>xs[lo:hi]\<close> with integer bounds: a negative bound counts from the
  end, and bounds are clipped to the sequence.
\<close>

definition clip_index :: "int \<Rightarrow> nat \<Rightarrow> nat" where
  "clip_index i n = (if i < 0 then nat (max (i + int n) 0) else min (nat i) n)"

definition py_slice :: "'a list \<Rightarrow> int \<Rightarrow> int \<Rightarrow> 'a list" where
  "py_slice xs lo hi =
     (let a = clip_index lo (length xs); b = clip_index hi (length xs)
      in take (b - a) (drop a xs))"

text \<open>A candidate rectangle; \<open>rect.coordinates\<close> is \<open>(left, top, right, bottom)\<close>.\<close>

record rect =
  rect_left :: int
  rect_top :: int
  rect_right :: int
  rect_bottom :: int

definition coordinates :: "rect \<Rightarrow> int \<times> int \<times> int \<times> int" where
  "coordinates r = (rect_left r, rect_top r, rect_right r, rect_bottom r)"

subsection \<open>The decoder\<close>

text \<open>
  The engine is called as \<open>engine(crop)\<close> and returns the decoded symbols, each with
  a \<open>type\<close> and a \<open>data\<close>, or raises. The crops it has been called with, in order,
  are kept as the history of its invocations.
\<close>

type_synonym engine = "array \<Rightarrow> error + barcode list"

record 'c Decoder =
  self_img :: "'c image"
  self_candidates :: "rect list"
  self_barcodes :: "barcode list option"
  self_engine :: engine

text \<open>\<open>Decoder(img, candidates, engine)\<close>.\<close>

definition init :: "'c image \<Rightarrow> rect list \<Rightarrow> engine \<Rightarrow> 'c Decoder" where
  "init img cands eng =
     \<lparr>self_img = img, self_candidates = cands, self_barcodes = None, self_engine = eng\<rparr>"

text \<open>The contrast step of \<open>_compute_barcodes\<close>, lines 52 to 56.\<close>

definition contrast :: "'c cv2 \<Rightarrow> array \<Rightarrow> error + array" where
  "contrast cv crop =
     (let bigmask = compare_GE crop 0x80;
          smallmask = bitwise_not bigmask
      in case add_scalar cv crop 0x10 bigmask of
           Inl e \<Rightarrow> Inl e
         | Inr big \<Rightarrow>
             (case subtract_scalar cv crop 0x5a smallmask of
                Inl e \<Rightarrow> Inl e
              | Inr small \<Rightarrow> Inr (add_arrays big small)))"

text \<open>
  The body of the loop over the candidates, lines 38 to 60: the result list \<open>res\<close>
  and the history \<open>hist\<close> of the engine before; the new result list, or the
  exception that ended the body, and the history after.
\<close>

definition candidate ::
  "'c cv2 \<Rightarrow> engine \<Rightarrow> array \<Rightarrow> rect \<Rightarrow> barcode list \<Rightarrow> array list \<Rightarrow>
   (error + barcode list) \<times> array list" where
  "candidate cv eng img rect res hist =
     (case coordinates rect of (l, t, r, b) \<Rightarrow>
       (let crop = map (\<lambda>row. py_slice row l r) (py_slice img t b)
        in case GaussianBlur cv crop of
             Inl e \<Rightarrow> (Inl e, hist)
           | Inr blur \<Rightarrow>
               (case addWeighted cv crop blur of
                  Inl e \<Rightarrow> (Inl e, hist)
                | Inr crop \<Rightarrow>
                    (case eng crop of
                       Inl e \<Rightarrow> (Inl e, hist @ [crop])
                     | Inr decoded \<Rightarrow>
                         if decoded = [] then
                           (case contrast cv crop of
                              Inl e \<Rightarrow> (Inl e, hist @ [crop])
                            | Inr crop2 \<Rightarrow>
                                (case eng crop2 of
                                   Inl e \<Rightarrow> (Inl e, hist @ [crop, crop2])
                                 | Inr decoded \<Rightarrow>
                                     (Inr (res @ map (\<lambda>b. Barcode (type b) (data b)) decoded),
                                      hist @ [crop, crop2])))
                         else (Inr (res @ map (\<lambda>b. Barcode (type b) (data b)) decoded),
                               hist @ [crop])))))"

text \<open>The loop: an exception in one candidate ends it.\<close>

fun candidates_loop ::
  "'c cv2 \<Rightarrow> engine \<Rightarrow> array \<Rightarrow> rect list \<Rightarrow> barcode list \<Rightarrow> array list \<Rightarrow>
   (error + barcode list) \<times> array list" where
  "candidates_loop cv eng img [] res hist = (Inr res, hist)"
| "candidates_loop cv eng img (rect # rects) res hist =
     (case candidate cv eng img rect res hist of
        (Inl e, hist') \<Rightarrow> (Inl e, hist')
      | (Inr res', hist') \<Rightarrow> candidates_loop cv eng img rects res' hist')"

definition compute_barcodes ::
  "'c cv2 \<Rightarrow> 'c Decoder \<Rightarrow> array list \<Rightarrow> (error + barcode list) \<times> array list" where
  "compute_barcodes cv self hist =
     (case self_img self of
        Grey a \<Rightarrow> candidates_loop cv (self_engine self) a (self_candidates self) [] hist
      | Colour c \<Rightarrow>
          (case cvtColor cv c of
             Inl e \<Rightarrow> (Inl e, hist)
           | Inr a \<Rightarrow> candidates_loop cv (self_engine self) a (self_candidates self) [] hist))"

text \<open>
  \<open>__iter__\<close>: the sequence iterated or the exception, the decoder and the engine's
  history after the call. An exception of the computation leaves \<open>_barcodes\<close> as it
  was.
\<close>

definition iter ::
  "'c cv2 \<Rightarrow> 'c Decoder \<times> array list \<Rightarrow> (error + barcode list) \<times> 'c Decoder \<times> array list" where
  "iter cv s =
     (case s of (self, hist) \<Rightarrow>
       (case self_barcodes self of
          None \<Rightarrow>
            (case compute_barcodes cv self hist of
               (Inl e, hist') \<Rightarrow> (Inl e, self, hist')
             | (Inr res, hist') \<Rightarrow> (Inr res, self\<lparr>self_barcodes := Some res\<rparr>, hist'))
        | Some res \<Rightarrow> (Inr res, self, hist)))"

section \<open>The rename sink: \<open>RenameVisitor\<close>\<close>

subsection \<open>Paths\<close>

text \<open>
  \<open>path.name\<close> is the last part, and empty for a path that is nothing but a root.
\<close>

definition path_name :: "path \<Rightarrow> string" where
  "path_name p = (if p = [] \<or> p = [''/''] then [] else last p)"

text \<open>\<open>s.rfind(c)\<close>: the index of the last occurrence, \<open>None\<close> for Python's \<open>-1\<close>.\<close>

fun rfind :: "'a \<Rightarrow> 'a list \<Rightarrow> nat option" where
  "rfind c [] = None"
| "rfind c (x # xs) =
     (case rfind c xs of
        Some i \<Rightarrow> Some (Suc i)
      | None \<Rightarrow> if x = c then Some 0 else None)"

text \<open>
  \<open>path.suffix\<close> and \<open>path.stem\<close>: the name is split at its last dot, unless that dot
  is the first or the last character of the name.
\<close>

definition path_suffix :: "path \<Rightarrow> string" where
  "path_suffix p =
     (case rfind CHR ''.'' (path_name p) of
        Some i \<Rightarrow> if 0 < i \<and> i < length (path_name p) - 1 then drop i (path_name p) else []
      | None \<Rightarrow> [])"

definition path_stem :: "path \<Rightarrow> string" where
  "path_stem p =
     (case rfind CHR ''.'' (path_name p) of
        Some i \<Rightarrow> if 0 < i \<and> i < length (path_name p) - 1 then take i (path_name p) else path_name p
      | None \<Rightarrow> path_name p)"

text \<open>
  \<open>path.with_name(n)\<close> raises \<open>ValueError\<close> when the path has an empty name and when
  \<open>n\<close> is not one plain part (empty, a dot, or with a separator in it).
\<close>

definition with_name :: "path \<Rightarrow> string \<Rightarrow> error + path" where
  "with_name p n =
     (if path_name p = [] then Inl ValueError
      else if n = [] \<or> n = ''.'' \<or> CHR ''/'' \<in> set n then Inl ValueError
      else Inr (butlast p @ [n]))"

text \<open>The decimal numeral of a natural number, as \<open>format\<close> writes it.\<close>

definition digit :: "nat \<Rightarrow> char" where
  "digit d = ''0123456789'' ! d"

fun str :: "nat \<Rightarrow> string" where
  "str n = (if n < 10 then [digit n] else str (n div 10) @ [digit (n mod 10)])"

declare str.simps [simp del]

subsection \<open>The sink's state and the disk\<close>

text \<open>
  What the sink prints, line by line: the path, then one line for a file without
  barcodes or one line per barcode value.
\<close>

datatype report =
    Path path
  | NoBarcodes
  | AlreadyCorrectlyNamed
  | CannotRename path
  | Renamed path
  | Copied path

text \<open>
  The two fields of the sink, the disk as the sink sees and changes it (the regular
  files with their contents and metadata, and the directories), and the lines printed
  so far. \<open>suffix\<close> is the \<open>defaultdict\<close> of counters: a name that is not a key has
  no counter yet, and a key maps to the number its counter yields next.
\<close>

record 'c RenameVisitor =
  avoid_collisions :: bool
  suffix :: "string \<rightharpoonup> nat"
  files :: "(path, 'c) fmap"
  dirs :: "path set"
  printed :: "report list"

text \<open>\<open>RenameVisitor(avoid_collisions)\<close> on a given disk.\<close>

definition RenameVisitor_init :: "bool \<Rightarrow> (path, 'c) fmap \<Rightarrow> path set \<Rightarrow> 'c RenameVisitor" where
  "RenameVisitor_init avoid fs ds =
     \<lparr>avoid_collisions = avoid, suffix = Map.empty, files = fs, dirs = ds, printed = []\<rparr>"

definition is_file :: "(path, 'c) fmap \<Rightarrow> path \<Rightarrow> bool" where
  "is_file fs p = (fmlookup fs p \<noteq> None)"

text \<open>
  \<open>next(self.suffix[n])\<close>: a missing key gets a counter that starts at 1; the number
  returned, and the dictionary afterwards.
\<close>

definition next_suffix :: "(string \<rightharpoonup> nat) \<Rightarrow> string \<Rightarrow> nat \<times> (string \<rightharpoonup> nat)" where
  "next_suffix sfx n = (case sfx n of None \<Rightarrow> (1, sfx(n \<mapsto> 2)) | Some k \<Rightarrow> (k, sfx(n \<mapsto> Suc k)))"

text \<open>The name \<open>'{0}-{1}{2}'.format(path.stem, k, path.suffix)\<close>.\<close>

definition numbered :: "path \<Rightarrow> nat \<Rightarrow> string" where
  "numbered p k = path_stem p @ ''-'' @ str k @ path_suffix p"

text \<open>
  \<open>path.rename(dst)\<close> for a regular file: the source must exist, a directory cannot
  be replaced by a file.
\<close>

definition rename :: "path \<Rightarrow> path \<Rightarrow> 'c RenameVisitor \<Rightarrow> error + 'c RenameVisitor" where
  "rename src dst w =
     (case fmlookup (files w) src of
        None \<Rightarrow> Inl FileNotFoundError
      | Some c \<Rightarrow>
          if dst \<in> dirs w then Inl IsADirectoryError
          else Inr (w\<lparr>files := fmupd dst c (fmdrop src (files w))\<rparr>))"

text \<open>
  \<open>shutil.copy2(src, dst)\<close>: contents and metadata go to \<open>dst\<close>, or into \<open>dst\<close> under the
  source's name when \<open>dst\<close> is a directory.
\<close>

definition copy2 :: "path \<Rightarrow> path \<Rightarrow> 'c RenameVisitor \<Rightarrow> error + 'c RenameVisitor" where
  "copy2 src dst w =
     (case fmlookup (files w) src of
        None \<Rightarrow> Inl FileNotFoundError
      | Some c \<Rightarrow>
          (let target = (if dst \<in> dirs w then dst @ [path_name src] else dst)
           in if target = src then Inl SameFileError
              else if target \<in> dirs w then Inl IsADirectoryError
              else Inr (w\<lparr>files := fmupd target c (files w)\<rparr>)))"


subsection \<open>The collision loop terminates\<close>

text \<open>
  The numbered names of one path are pairwise different, and the disk holds finitely
  many files, so only finitely many numbered candidates are taken.
\<close>

lemma str_nonempty [simp]: "str n \<noteq> []" "[] \<noteq> str n"
  by (subst str.simps, simp)+

lemma last_str: "last (str n) = digit (n mod 10)"
  by (subst str.simps) simp

lemma butlast_str: "butlast (str n) = (if n < 10 then [] else str (n div 10))"
  by (subst str.simps) simp

lemma digit_inj: "a < 10 \<Longrightarrow> b < 10 \<Longrightarrow> digit a = digit b \<Longrightarrow> a = b"
proof -
  assume a: "a < 10" and b: "b < 10" and e: "digit a = digit b"
  have d: "distinct ''0123456789''" by simp
  have "a < length ''0123456789''" "b < length ''0123456789''" using a b by simp_all
  with d e show "a = b"
    unfolding digit_def by (simp only: nth_eq_iff_index_eq)
qed

lemma str_inj: "str a = str b \<Longrightarrow> a = b"
proof (induction a arbitrary: b rule: str.induct)
  case (1 n)
  from "1.prems" have l: "digit (n mod 10) = digit (b mod 10)"
    using last_str [of n] last_str [of b] by simp
  then have m: "n mod 10 = b mod 10"
    by (intro digit_inj) simp_all
  from "1.prems" have bl: "butlast (str n) = butlast (str b)" by simp
  show ?case
  proof (cases "n < 10")
    case True
    with bl have "b < 10"
      by (auto simp: butlast_str split: if_splits)
    with True m show ?thesis by simp
  next
    case False
    with bl have b10: "\<not> b < 10"
      by (auto simp: butlast_str split: if_splits)
    with False bl have "str (n div 10) = str (b div 10)"
      by (simp add: butlast_str)
    with False "1.IH" have "n div 10 = b div 10" by simp
    with m show ?thesis
      by (metis div_mult_mod_eq)
  qed
qed

lemma numbered_inj: "numbered p a = numbered p b \<Longrightarrow> a = b"
  by (simp add: numbered_def str_inj)

lemma with_name_numbered_inj:
  "with_name p (numbered p a) = Inr d \<Longrightarrow> with_name p (numbered p b) = Inr d \<Longrightarrow> a = b"
  by (auto simp: with_name_def numbered_inj split: if_splits)


lemma is_file_fmdom': "is_file fs p \<longleftrightarrow> p \<in> fmdom' fs"
  unfolding is_file_def fmdom'.rep_eq by (simp only: domIff)

text \<open>The numbers from \<open>n\<close> on whose candidate is a file on the disk.\<close>

definition taken :: "(path, 'c) fmap \<Rightarrow> path \<Rightarrow> nat \<Rightarrow> nat set" where
  "taken fs p n = {k. n \<le> k \<and> (\<exists>d. with_name p (numbered p k) = Inr d \<and> is_file fs d)}"

lemma finite_taken: "finite (taken fs p n)"
proof -
  have inj: "inj (\<lambda>k. butlast p @ [numbered p k])"
    by (rule injI) (simp add: numbered_inj)
  have "taken fs p n \<subseteq> (\<lambda>k. butlast p @ [numbered p k]) -` fmdom' fs"
    by (auto simp: taken_def with_name_def is_file_fmdom' split: if_splits)
  moreover have "finite ((\<lambda>k. butlast p @ [numbered p k]) -` fmdom' fs)"
    using inj by (intro finite_vimageI) simp_all
  ultimately show ?thesis by (rule finite_subset)
qed

lemma taken_step:
  "with_name p (numbered p n) = Inr d \<Longrightarrow> is_file fs d \<Longrightarrow>
   taken fs p n = insert n (taken fs p (Suc n))"
  by (auto simp: taken_def elim: le_SucE) 

lemma card_taken_step:
  "with_name p (numbered p n) = Inr d \<Longrightarrow> is_file fs d \<Longrightarrow>
   card (taken fs p (Suc n)) < card (taken fs p n)"
proof -
  assume a: "with_name p (numbered p n) = Inr d" "is_file fs d"
  have "n \<notin> taken fs p (Suc n)" by (simp add: taken_def)
  then show ?thesis
    by (simp add: taken_step [OF a] finite_taken)
qed

subsection \<open>\<open>_destination\<close> and \<open>result\<close>\<close>

text \<open>
  The \<open>while\<close> loop of \<open>_destination\<close>: the candidate at hand and the dictionary of
  counters, which each round advances before it builds the next candidate.
\<close>

function destination_loop ::
  "(path, 'c) fmap \<Rightarrow> path \<Rightarrow> path \<Rightarrow> (string \<rightharpoonup> nat) \<Rightarrow> (error + path) \<times> (string \<rightharpoonup> nat)" where
  "destination_loop fs path destination sfx =
     (if is_file fs destination then
        (case next_suffix sfx (path_name path) of
           (k, sfx') \<Rightarrow>
             (case with_name path (numbered path k) of
                Inl e \<Rightarrow> (Inl e, sfx')
              | Inr d \<Rightarrow> destination_loop fs path d sfx'))
      else (Inr destination, sfx))"
  by pat_completeness auto
termination
proof (relation "measure (\<lambda>(fs, path, destination, sfx).
    if is_file fs destination
    then Suc (card (taken fs path (fst (next_suffix sfx (path_name path)))))
    else 0)", goal_cases)
  case 1
  then show ?case by simp
next
  case (2 fs path destination sfx k sfx' d)
  then have k: "k = fst (next_suffix sfx (path_name path))"
    and s: "fst (next_suffix sfx' (path_name path)) = Suc k"
    by (auto simp: next_suffix_def split: option.splits)
  show ?case
  proof (cases "is_file fs d")
    case True
    with 2 card_taken_step [of path k d fs] show ?thesis
      by (simp add: s k [symmetric])
  next
    case False
    with 2 show ?thesis by simp
  qed
qed

declare destination_loop.simps [simp del]

definition destination :: "'c RenameVisitor \<Rightarrow> path \<Rightarrow> (error + path) \<times> 'c RenameVisitor" where
  "destination self path =
     (if avoid_collisions self then
        (case destination_loop (files self) path path (suffix self) of
           (d, sfx') \<Rightarrow> (d, self\<lparr>suffix := sfx'\<rparr>))
      else (Inr path, self))"

text \<open>
  \<open>re.sub('[^a-zA-Z0-9_-]', '_', text)\<close> on a string of code points: a character of
  the class stays, any other becomes an underscore.
\<close>

definition allowed :: string where
  "allowed = ''abcdefghijklmnopqrstuvwxyzABCDEFGHIJKLMNOPQRSTUVWXYZ0123456789_-''"

definition sanitize :: "nat list \<Rightarrow> string" where
  "sanitize text =
     map (\<lambda>c. case find (\<lambda>a. of_char a = c) allowed of Some a \<Rightarrow> a | None \<Rightarrow> CHR ''_'') text"

text \<open>
  The list \<open>values\<close>. \<open>b.data.decode()\<close> turns the payload into a string of code
  points with the interpreter's default codec, or raises; the codec is the parameter
  \<open>codec\<close>.
\<close>

type_synonym codec = "string \<Rightarrow> error + nat list"

fun values_of :: "codec \<Rightarrow> barcode list \<Rightarrow> error + string list" where
  "values_of codec [] = Inr []"
| "values_of codec (b # bs) =
     (case codec (data b) of
        Inl e \<Rightarrow> Inl e
      | Inr text \<Rightarrow>
          (case values_of codec bs of
             Inl e \<Rightarrow> Inl e
           | Inr vs \<Rightarrow> Inr (sanitize text # vs)))"

definition say :: "report \<Rightarrow> 'c RenameVisitor \<Rightarrow> 'c RenameVisitor" where
  "say line self = self\<lparr>printed := printed self @ [line]\<rparr>"

text \<open>
  The \<open>if\<close>/\<open>elif\<close> chain for one value. \<open>first_destination\<close> is \<open>None\<close> or a path,
  and a path is always true, so \<open>rename\<close> holds exactly when it is \<open>None\<close>.
\<close>

definition act :: "path \<Rightarrow> path option \<Rightarrow> path \<Rightarrow> 'c RenameVisitor \<Rightarrow> error option \<times> 'c RenameVisitor" where
  "act path first_destination dest self =
     (let source = (case first_destination of Some d \<Rightarrow> d | None \<Rightarrow> path)
      in if source = dest then (None, say AlreadyCorrectlyNamed self)
         else if is_file (files self) dest then (None, say (CannotRename dest) self)
         else if first_destination = None then
           (case rename path dest self of
              Inl e \<Rightarrow> (Some e, self)
            | Inr self' \<Rightarrow> (None, say (Renamed dest) self'))
         else
           (case copy2 source dest self of
              Inl e \<Rightarrow> (Some e, self)
            | Inr self' \<Rightarrow> (None, say (Copied dest) self')))"

text \<open>The loop over \<open>values\<close>.\<close>

fun rename_values ::
  "path \<Rightarrow> string list \<Rightarrow> path option \<Rightarrow> 'c RenameVisitor \<Rightarrow> error option \<times> 'c RenameVisitor" where
  "rename_values path [] first_destination self = (None, self)"
| "rename_values path (v # vs) first_destination self =
     (case with_name path (v @ path_suffix path) of
        Inl e \<Rightarrow> (Some e, self)
      | Inr dest \<Rightarrow>
          (case destination self dest of
             (Inl e, self1) \<Rightarrow> (Some e, self1)
           | (Inr dest, self1) \<Rightarrow>
               (case act path first_destination dest self1 of
                  (Some e, self2) \<Rightarrow> (Some e, self2)
                | (None, self2) \<Rightarrow>
                    rename_values path vs
                      (case first_destination of None \<Rightarrow> Some dest | Some d \<Rightarrow> Some d) self2)))"

text \<open>
  \<open>RenameVisitor.result\<close>. Unpacking \<open>strategy, barcodes = result\<close> raises on a value
  that is not a pair.
\<close>

definition result :: "codec \<Rightarrow> path \<Rightarrow> result \<Rightarrow> 'c RenameVisitor \<Rightarrow> error option \<times> 'c RenameVisitor" where
  "result codec path r self =
     (case r of
        PyNone \<Rightarrow> (Some TypeError, self)
      | PyEmpty \<Rightarrow> (Some ValueError, self)
      | Outcome strategy barcodes \<Rightarrow>
          (let self = say (Path path) self
           in if barcodes = [] then (None, say NoBarcodes self)
              else
                (case values_of codec barcodes of
                   Inl e \<Rightarrow> (Some e, self)
                 | Inr vs \<Rightarrow> rename_values path vs None self)))"

section \<open>Auxiliary notions for the driver\<close>

text \<open>
  The outcome the driver settles on for one file, before any sink is called: the
  exception of the loader or of a strategy, \<open>[None, []]\<close> when there is no image, the
  chain's result otherwise.
\<close>

definition file_outcome ::
  "('img, 'eng) strategy list \<Rightarrow> 'eng \<Rightarrow> error + 'img option \<Rightarrow> error + result" where
  "file_outcome strategies engine img =
     (case img of
        Inl e \<Rightarrow> Inl e
      | Inr None \<Rightarrow> Inr (Outcome None [])
      | Inr (Some i) \<Rightarrow> chain strategies i engine)"

text \<open>The calls \<open>visitors[i].result(p, r)\<close>, ..., \<open>visitors[i + n - 1].result(p, r)\<close>.\<close>

definition calls :: "nat \<Rightarrow> nat \<Rightarrow> path \<Rightarrow> result \<Rightarrow> event list" where
  "calls i n p r = map (\<lambda>j. Call j p r) [i..<i + n]"

text \<open>
  A tree in which no query \<open>p.is_dir()\<close> and no listing raises.
\<close>

fun accessible :: "'img entry \<Rightarrow> bool" where
  "accessible (RegularFile p loaded) = True"
| "accessible (Directory p children) = list_all accessible children"
| "accessible (UnreadableDirectory p e) = False"
| "accessible (Inaccessible p e) = False"

text \<open>
  The same tree with every directory's children in sorted order: what is left of a
  tree once the order in which the operating system enumerates a directory is
  forgotten. \<open>sorted_tree\<close> sorts the top level as well.
\<close>

fun canon :: "'img entry \<Rightarrow> 'img entry" where
  "canon (RegularFile p loaded) = RegularFile p loaded"
| "canon (Directory p children) = Directory p (sort_key path_of (map canon children))"
| "canon (UnreadableDirectory p e) = UnreadableDirectory p e"
| "canon (Inaccessible p e) = Inaccessible p e"

definition sorted_tree :: "'img entry list \<Rightarrow> 'img entry list" where
  "sorted_tree paths = sort_key path_of (map canon paths)"

text \<open>A tree whose directories all have their children in ascending order of path.\<close>

fun ordered :: "'img entry \<Rightarrow> bool" where
  "ordered (Directory p children) = (sorted (map path_of children) \<and> list_all ordered children)"
| "ordered (RegularFile p loaded) = True"
| "ordered (UnreadableDirectory p e) = True"
| "ordered (Inaccessible p e) = True"

text \<open>
  The files of a tree, depth first, each directory's children in the order in which
  the tree lists them.
\<close>

fun leaves :: "'img entry \<Rightarrow> path list" where
  "leaves (RegularFile p loaded) = [p]"
| "leaves (Directory p children) = concat (map leaves children)"
| "leaves (UnreadableDirectory p e) = []"
| "leaves (Inaccessible p e) = []"

text \<open>The file an event is about.\<close>

fun event_path :: "event \<Rightarrow> path" where
  "event_path (Call i p r) = p"
| "event_path (ErrorProcessing p e) = p"

text \<open>
  A history that goes through the paths \<open>ps\<close> in their order: it consists of one
  block of events per path, the block of the first path first, every event of a block
  being about the block's path; with \<open>strict\<close>, no block is empty.
\<close>

definition blocks :: "bool \<Rightarrow> path list \<Rightarrow> event list \<Rightarrow> bool" where
  "blocks strict ps evs =
     (\<exists>ns. length ns = length ps
        \<and> map event_path evs = concat (map2 replicate ns ps)
        \<and> (strict \<longrightarrow> 0 \<notin> set ns))"

text \<open>
  A run that started with the history \<open>t\<close> and has so far gone through an initial
  part of the paths \<open>L\<close>, and through all of them if it ended without an exception.
\<close>

definition traced :: "bool \<Rightarrow> path list \<Rightarrow> event list \<Rightarrow> error option \<times> 'w state \<Rightarrow> bool" where
  "traced strict L t r =
     (\<exists>m new. snd (snd r) = t @ new \<and> blocks strict (take m L) new \<and> (fst r = None \<longrightarrow> m = length L))"

subsection \<open>Concrete strategies, sinks and files\<close>

text \<open>
  Images and engines carry no information here (\<open>unit\<close>). The strategies: one that
  declines with \<open>None\<close>, one that returns an outcome with a name and no barcodes, one
  that finds a barcode, one that raises. The sinks: one that returns, one that raises.
\<close>

definition declining :: "(unit, unit) strategy" where
  "declining img engine = Inr PyNone"

definition empty_handed :: "(unit, unit) strategy" where
  "empty_handed img engine = Inr (Outcome (Some ''resize'') [])"

definition finding :: "(unit, unit) strategy" where
  "finding img engine = Inr (Outcome (Some ''roi'') [Barcode ''QRCODE'' ''A''])"

definition quiet_sink :: "unit visitor" where
  "quiet_sink p r w = (None, w)"

definition raising_sink :: "unit visitor" where
  "raising_sink p r w = (Some (Exception ''sink''), w)"

definition image_file :: "path \<Rightarrow> unit entry" where
  "image_file p = RegularFile p (\<lambda>read_greyscale. Inr (Some ()))"

definition not_an_image :: "path \<Rightarrow> unit entry" where
  "not_an_image p = RegularFile p (\<lambda>read_greyscale. Inr None)"

definition unreadable_file :: "path \<Rightarrow> unit entry" where
  "unreadable_file p = RegularFile p (\<lambda>read_greyscale. Inl PermissionError)"

text \<open>One tree, listed in two orders.\<close>

definition small_tree :: "unit entry list" where
  "small_tree =
     [not_an_image [''m.txt''],
      Directory [''d''] [not_an_image [''d'', ''b.txt''], not_an_image [''d'', ''a.txt'']]]"

definition small_tree' :: "unit entry list" where
  "small_tree' =
     [Directory [''d''] [not_an_image [''d'', ''a.txt''], not_an_image [''d'', ''b.txt'']],
      not_an_image [''m.txt'']]"


section \<open>Auxiliary notions for the region decoder\<close>

text \<open>
  The image the candidates are cropped from: the decoder's image, converted first
  unless it is a single-channel 8-bit array already (lines 31 to 34).
\<close>

definition normalized :: "'c cv2 \<Rightarrow> 'c image \<Rightarrow> error + array" where
  "normalized cv img = (case img of Grey a \<Rightarrow> Inr a | Colour c \<Rightarrow> cvtColor cv c)"

text \<open>The crop of a candidate after the unsharp mask (lines 38 to 43).\<close>

definition sharpened :: "'c cv2 \<Rightarrow> array \<Rightarrow> rect \<Rightarrow> error + array" where
  "sharpened cv img rect =
     (case coordinates rect of (l, t, r, b) \<Rightarrow>
       (let crop = map (\<lambda>row. py_slice row l r) (py_slice img t b)
        in case GaussianBlur cv crop of
             Inl e \<Rightarrow> Inl e
           | Inr blur \<Rightarrow> addWeighted cv crop blur))"

text \<open>
  The symbols of one candidate: what the engine returns on the sharpened crop, or,
  when that is nothing, what it returns on the crop after the contrast step; an
  exception when one of these steps raises.
\<close>

definition symbols :: "'c cv2 \<Rightarrow> engine \<Rightarrow> array \<Rightarrow> rect \<Rightarrow> error + barcode list" where
  "symbols cv eng img rect =
     (case sharpened cv img rect of
        Inl e \<Rightarrow> Inl e
      | Inr crop \<Rightarrow>
          (case eng crop of
             Inl e \<Rightarrow> Inl e
           | Inr decoded \<Rightarrow>
               if decoded = [] then
                 (case contrast cv crop of Inl e \<Rightarrow> Inl e | Inr crop2 \<Rightarrow> eng crop2)
               else Inr decoded))"

text \<open>
  The contrast remap of one pixel in the words of the specification: bright pixels
  up by \<open>0x10\<close>, dark pixels down by \<open>0x5a\<close>, saturating.
\<close>

definition remap :: "pixel \<Rightarrow> pixel" where
  "remap p = (if 0x80 \<le> p then saturate_add p 0x10 else saturate_subtract p 0x5a)"

subsection \<open>A concrete decoder\<close>

text \<open>
  An OpenCV stand-in whose blur and weighted sum leave the crop as it is and which
  takes an \<open>int\<close> for a scalar wherever the shapes allow it. An engine that reads a
  barcode from one array only, the contrast remap of \<open>faint_image\<close>, and an engine
  that reads nothing. A faint image of one row, and one of four rows and one column.
\<close>

definition plain_cv :: "array cv2" where
  "plain_cv =
     \<lparr>cvtColor = (\<lambda>c. Inr c), GaussianBlur = (\<lambda>crop. Inr crop),
      addWeighted = (\<lambda>crop blur. Inr crop), scalar_operand = (\<lambda>a. True)\<rparr>"

definition faint_image :: array where
  "faint_image = [[0x80, 0x10, 0xF8, 0x64]]"

definition whole_image :: rect where
  "whole_image = \<lparr>rect_left = 0, rect_top = 0, rect_right = 4, rect_bottom = 1\<rparr>"

definition tall_image :: array where
  "tall_image = [[0x80], [0x10], [0xF8], [0x64]]"

definition whole_tall_image :: rect where
  "whole_tall_image = \<lparr>rect_left = 0, rect_top = 0, rect_right = 1, rect_bottom = 4\<rparr>"

definition picky_engine :: engine where
  "picky_engine crop =
     (if crop = [[0x90, 0x00, 0xFF, 0x0A]] then Inr [Barcode ''QRCODE'' ''A''] else Inr [])"

definition blind_engine :: engine where
  "blind_engine crop = Inr []"


section \<open>Auxiliary notions for the rename sink\<close>

text \<open>
  The ASCII codec, the default of \<open>decode\<close> on a Python 2 string; on ASCII bytes
  the UTF-8 codec of Python 3 gives the same code points.
\<close>

definition ascii :: codec where
  "ascii s = (if list_all (\<lambda>c. of_char c < (128::nat)) s then Inr (map of_char s) else Inl UnicodeDecodeError)"

subsection \<open>Two files with the same barcode\<close>






subsection \<open>One file with two barcodes\<close>

definition album :: "(path, string) fmap" where
  "album = fmupd [''d'', ''scan.png''] ''scan'' fmempty"

definition crowded :: "(path, string) fmap" where
  "crowded = fmupd [''d'', ''B.png''] ''other'' album"

definition occupied :: "(path, string) fmap" where
  "occupied = fmupd [''d'', ''A.png''] ''other'' album"

definition reads_A_B :: result where
  "reads_A_B = Outcome (Some ''roi'') [Barcode ''CODE128'' ''A'', Barcode ''CODE128'' ''B'']"

section \<open>Properties of the driver\<close>

subsection \<open>Sinks and the per-file handler\<close>

lemma try_file_outcome:
  "try_file strategies engine visitors p img s =
     (case file_outcome strategies engine img of
        Inl e \<Rightarrow> (Some e, s)
      | Inr r \<Rightarrow> notify visitors 0 p r s)"
  by (simp add: try_file_def file_outcome_def split: sum.splits option.splits)

lemma calls_Suc: "calls i (Suc n) p r = Call i p r # calls (Suc i) n p r"
  by (simp add: calls_def upt_rec)

lemma calls_0 [simp]: "calls i 0 p r = []"
  by (simp add: calls_def)

text \<open>
  However the sink loop ends, it has called a prefix of the sinks, each once and in
  order; all of them when it ends without an exception.
\<close>

lemma notify_trace:
  "notify vs i p r (w, t) = (x, (w', t')) \<Longrightarrow>
   \<exists>n. n \<le> length vs \<and> t' = t @ calls i n p r \<and> (x = None \<longrightarrow> n = length vs)"
proof (induction vs arbitrary: i w t)
  case Nil
  then show ?case by simp
next
  case (Cons v vs)
  obtain y w1 where v: "v p r w = (y, w1)" by (cases "v p r w")
  show ?case
  proof (cases y)
    case None
    with v Cons.prems have "notify vs (Suc i) p r (w1, t @ [Call i p r]) = (x, (w', t'))"
      by simp
    from Cons.IH [OF this] obtain n where
      n: "n \<le> length vs" "t' = (t @ [Call i p r]) @ calls (Suc i) n p r" "x = None \<longrightarrow> n = length vs"
      by blast
    then show ?thesis
      by (intro exI [of _ "Suc n"]) (simp add: calls_Suc)
  next
    case (Some e)
    with v Cons.prems have "t' = t @ [Call i p r]" "x = Some e" by auto
    then show ?thesis
      by (intro exI [of _ "Suc 0"]) (simp add: calls_Suc)
  qed
qed

lemma notify_completes:
  "fst (notify vs i p r (w, t)) = None \<Longrightarrow>
   \<exists>w'. notify vs i p r (w, t) = (None, (w', t @ calls i (length vs) p r))"
proof -
  assume a: "fst (notify vs i p r (w, t)) = None"
  obtain x w' t' where n: "notify vs i p r (w, t) = (x, (w', t'))"
    by (cases "notify vs i p r (w, t)") auto
  from notify_trace [OF n] a n show ?thesis by auto
qed

lemma notify_append:
  "notify pre i p r (w, t) = (None, (w1, t1)) \<Longrightarrow>
   notify (pre @ post) i p r (w, t) = notify post (i + length pre) p r (w1, t1)"
proof (induction pre arbitrary: i w t)
  case Nil
  then show ?case by simp
next
  case (Cons v vs)
  then show ?case
    by (auto split: prod.splits option.splits)
qed

lemma process_file_error:
  "file_outcome strategies engine img = Inl e \<Longrightarrow>
   process_file strategies engine visitors p img (w, t) = (w, t @ [ErrorProcessing p e])"
  by (simp add: process_file_def try_file_outcome)

subsection \<open>Queries and listings that raise\<close>

lemma list_all_insort_key:
  "list_all P (insort_key k x xs) = (P x \<and> list_all P xs)"
  by (induction xs) auto

lemma list_all_sort_key: "list_all P (sort_key k xs) = list_all P xs"
  by (induction xs) (auto simp: list_all_insort_key)

text \<open>
  An exception leaves \<open>decode\<close> whenever some query \<open>p.is_dir()\<close> or some listing in
  the tree raises: every entry of the tree is reached unless the run has ended before.
\<close>

lemma inaccessible_aborts:
  "\<not> list_all accessible paths \<longrightarrow> fst (decode paths strategies engine visitors g s) \<noteq> None"
  "\<not> list_all accessible paths \<longrightarrow> fst (visit paths strategies engine visitors g s) \<noteq> None"
proof (induction paths strategies engine visitors g s and paths strategies engine visitors g s
    rule: decode_visit.induct)
  case (1 paths strategies engine visitors read_greyscale s)
  then show ?case by (simp add: list_all_sort_key)
next
  case (2 strategies engine visitors read_greyscale s)
  then show ?case by simp
next
  case (3 p children ps strategies engine visitors read_greyscale s)
  obtain x s' where d: "decode children strategies engine visitors read_greyscale s = (x, s')"
    by (cases "decode children strategies engine visitors read_greyscale s")
  show ?case
  proof (cases x)
    case None
    with d "3.IH"(1) have c: "list_all accessible children" by auto
    from None d "3.IH"(2) have
      "\<not> list_all accessible ps \<longrightarrow> fst (visit ps strategies engine visitors read_greyscale s') \<noteq> None"
      by simp
    with None d c show ?thesis by simp
  next
    case (Some e)
    with d show ?thesis by simp
  qed
next
  case (4 p e ps strategies engine visitors read_greyscale s)
  then show ?case by simp
next
  case (5 p e ps strategies engine visitors read_greyscale s)
  then show ?case by simp
next
  case (6 p loaded ps strategies engine visitors read_greyscale s)
  then show ?case by simp
qed

subsection \<open>The strategy chain\<close>

lemma chain_skips_falsy:
  "\<forall>s\<in>set pre. \<exists>r. s img engine = Inr r \<and> \<not> truthy r \<Longrightarrow>
   chain (pre @ post) img engine = chain post img engine"
  by (induction pre) auto

text \<open>
  Claim C1 does not hold of \<open>decode\<close>: the chain tests \<open>if result:\<close>, and an outcome
  with a strategy name and an empty barcode sequence is a sequence of two elements,
  which is true. Here the first strategy returns \<open>['resize', []]\<close> and the chain ends
  on it, although the second strategy would have found a barcode.
\<close>

theorem empty_outcome_ends_chain:
  "chain [empty_handed, finding] () () = Inr (Outcome (Some ''resize'') [])
   \<and> chain [finding] () () = Inr (Outcome (Some ''roi'') [Barcode ''QRCODE'' ''A''])"
  by (simp add: empty_handed_def finding_def)

text \<open>
  Claim C1, amended: the chain goes on to the next strategy when a strategy returns
  a false value (\<open>None\<close> or an empty sequence), and takes the first outcome
  \<open>[name, barcodes]\<close> it is given as the final result, whatever its barcodes, an
  empty sequence included.
\<close>

theorem chain_takes_first_truthy:
  "\<forall>s\<in>set pre. s img engine = Inr PyNone \<or> s img engine = Inr PyEmpty \<Longrightarrow>
   chain (pre @ post) img engine = chain post img engine
   \<and> (strategy img engine = Inr (Outcome name barcodes) \<longrightarrow>
        chain (pre @ strategy # post) img engine = Inr (Outcome name barcodes))"
proof -
  assume a: "\<forall>s\<in>set pre. s img engine = Inr PyNone \<or> s img engine = Inr PyEmpty"
  have "\<forall>s\<in>set pre. \<exists>r. s img engine = Inr r \<and> \<not> truthy r"
  proof
    fix s assume "s \<in> set pre"
    with a have "s img engine = Inr PyNone \<or> s img engine = Inr PyEmpty" by blast
    then show "\<exists>r. s img engine = Inr r \<and> \<not> truthy r" by auto
  qed
  then have skip: "\<And>post. chain (pre @ post) img engine = chain post img engine"
    by (rule chain_skips_falsy)
  show ?thesis
    by (simp add: skip)
qed

theorem chain_takes_first_truthy_witness:
  "chain ([declining] @ [finding]) () () = chain [finding] () ()
   \<and> chain ([declining] @ empty_handed # [finding]) () () = Inr (Outcome (Some ''resize'') [])"
  using chain_takes_first_truthy [of "[declining]" "()" "()" "[finding]" empty_handed "Some ''resize''" "[]"]
  by (simp add: declining_def empty_handed_def)

subsection \<open>Failure isolation\<close>

text \<open>
  Claim C2 does not hold of \<open>decode\<close>: only the processing of a file is inside the
  \<open>try\<close>. The recursive call for a directory is outside it, so a directory that
  cannot be listed ends the whole run with the exception: nothing is reported, and
  the file after it is never visited.
\<close>

theorem unreadable_directory_aborts:
  "decode [UnreadableDirectory [''d''] PermissionError, not_an_image [''e.txt'']] [finding] ()
     [quiet_sink] False ((), []) = (Some PermissionError, ((), []))"
  by (simp add: not_an_image_def)

text \<open>
  Claim C2, amended: an exception raised while loading one file or while running the
  strategy chain on it is caught and reported with the file's path, no sink is called
  for that file and the world is as it was, and the loop goes on with the next path,
  so that such an exception never ends the run. An exception raised by \<open>p.is_dir()\<close>
  or by the listing of a directory, anywhere in the tree, is not caught: it ends the
  run.
\<close>

theorem file_error_is_isolated:
  "((loaded g = Inl e \<or> (\<exists>img. loaded g = Inr (Some img) \<and> chain strategies img engine = Inl e)) \<longrightarrow>
      visit (RegularFile p loaded # ps) strategies engine visitors g (w, t)
        = visit ps strategies engine visitors g (w, t @ [ErrorProcessing p e]))
   \<and> (\<not> list_all accessible paths \<longrightarrow>
        (\<exists>x. fst (decode paths strategies engine visitors g s) = Some x))"
proof (intro conjI impI)
  assume "loaded g = Inl e \<or> (\<exists>img. loaded g = Inr (Some img) \<and> chain strategies img engine = Inl e)"
  then have "file_outcome strategies engine (loaded g) = Inl e"
    by (auto simp: file_outcome_def)
  then have "process_file strategies engine visitors p (loaded g) (w, t) = (w, t @ [ErrorProcessing p e])"
    by (rule process_file_error)
  then show "visit (RegularFile p loaded # ps) strategies engine visitors g (w, t)
      = visit ps strategies engine visitors g (w, t @ [ErrorProcessing p e])"
    by simp
next
  assume "\<not> list_all accessible paths"
  with inaccessible_aborts(1) [of paths strategies engine visitors g s]
  show "\<exists>x. fst (decode paths strategies engine visitors g s) = Some x"
    by auto
qed

theorem file_error_is_isolated_witness:
  "visit [unreadable_file [''a.png''], not_an_image [''b.txt'']] [finding] () [quiet_sink] False ((), [])
     = (None, ((), [ErrorProcessing [''a.png''] PermissionError, Call 0 [''b.txt''] (Outcome None [])]))
   \<and> fst (decode [not_an_image [''a.txt''],
                  Directory [''d''] [Inaccessible [''d'', ''x.png''] PermissionError],
                  not_an_image [''z.txt'']]
            [finding] () [quiet_sink] False ((), [])) = Some PermissionError"
proof -
  have m: "sort_key path_of [not_an_image [''a.txt''],
        Directory [''d''] [Inaccessible [''d'', ''x.png''] PermissionError], not_an_image [''z.txt'']]
      = [not_an_image [''a.txt''],
        Directory [''d''] [Inaccessible [''d'', ''x.png''] PermissionError], not_an_image [''z.txt'']]"
    by (simp add: not_an_image_def)
  show ?thesis
    using file_error_is_isolated [where loaded = "\<lambda>read_greyscale. Inl PermissionError"
        and g = False and e = PermissionError and strategies = "[finding]" and engine = "()"
        and ps = "[not_an_image [''b.txt'']]" and p = "[''a.png'']" and visitors = "[quiet_sink]"
        and w = "()" and t = "[]" and s = "((), [])"
        and paths = "[not_an_image [''a.txt''],
          Directory [''d''] [Inaccessible [''d'', ''x.png''] PermissionError], not_an_image [''z.txt'']]"]
    by (simp add: unreadable_file_def not_an_image_def process_file_def try_file_def quiet_sink_def)
qed

subsection \<open>Fan-out to the sinks\<close>

text \<open>
  Claim C9 does not hold of \<open>decode\<close> when a sink raises: the sink loops are inside
  the \<open>try\<close>, so the exception of one sink ends the loop. Here the file is not an
  image, the first of two sinks raises, and the second sink is never called.
\<close>

theorem raising_sink_starves_later_sinks:
  "visit [not_an_image [''b.txt'']] [finding] () [raising_sink, quiet_sink] False ((), [])
     = (None, ((), [Call 0 [''b.txt''] (Outcome None []), ErrorProcessing [''b.txt''] (Exception ''sink'')]))"
  by (simp add: not_an_image_def quiet_sink_def raising_sink_def process_file_def try_file_def)

text \<open>
  Claim C9, amended: for a file whose loading yields no image the outcome is
  \<open>[None, []]\<close>, for a file with an image it is the chain's result, and when no sink
  raises on that file every sink receives exactly one call with the path and that same
  outcome, in registration order, the barcodes being empty or not; the loop then goes
  on with the next path.
\<close>

theorem fan_out_when_no_sink_raises:
  "(loaded g = Inr None \<and> r = Outcome None []
      \<or> (\<exists>img. loaded g = Inr (Some img) \<and> chain strategies img engine = Inr r)) \<Longrightarrow>
   fst (notify visitors 0 p r (w, t)) = None \<Longrightarrow>
   visit (RegularFile p loaded # ps) strategies engine visitors g (w, t)
     = visit ps strategies engine visitors g
         (fst (snd (notify visitors 0 p r (w, t))), t @ map (\<lambda>i. Call i p r) [0..<length visitors])"
proof -
  assume "loaded g = Inr None \<and> r = Outcome None []
      \<or> (\<exists>img. loaded g = Inr (Some img) \<and> chain strategies img engine = Inr r)"
  then have out: "file_outcome strategies engine (loaded g) = Inr r"
    by (auto simp: file_outcome_def)
  assume "fst (notify visitors 0 p r (w, t)) = None"
  from notify_completes [OF this]
  obtain w' where n: "notify visitors 0 p r (w, t) = (None, (w', t @ calls 0 (length visitors) p r))"
    by (elim exE)
  then have "process_file strategies engine visitors p (loaded g) (w, t)
      = (w', t @ calls 0 (length visitors) p r)"
    using out by (simp add: process_file_def try_file_outcome)
  then show ?thesis
    by (simp add: n calls_def)
qed

theorem fan_out_when_no_sink_raises_witness:
  "visit [not_an_image [''b.txt'']] [finding] () [quiet_sink, quiet_sink] False ((), [])
     = (None, ((), [Call 0 [''b.txt''] (Outcome None []), Call 1 [''b.txt''] (Outcome None [])]))"
  using fan_out_when_no_sink_raises [where loaded = "\<lambda>read_greyscale. Inr None" and g = False
      and r = "Outcome None []" and strategies = "[finding]" and engine = "()" and ps = "[]"
      and p = "[''b.txt'']" and visitors = "[quiet_sink, quiet_sink]" and w = "()" and t = "[]"]
  by (simp add: not_an_image_def quiet_sink_def upt_rec)

text \<open>
  Claim C10: when the sinks before some sink return and that sink raises on the
  file's outcome, the exception is caught by the handler that also catches loading and
  strategy errors (the same report, with the path), the sinks registered after the
  raising one receive no call for the file, and the loop goes on with the next path.
\<close>

theorem sink_error_is_isolated:
  "(loaded g = Inr None \<and> r = Outcome None []
      \<or> (\<exists>img. loaded g = Inr (Some img) \<and> chain strategies img engine = Inr r)) \<Longrightarrow>
   notify pre 0 p r (w, t) = (None, (w1, t1)) \<Longrightarrow>
   v p r w1 = (Some e, w2) \<Longrightarrow>
   visit (RegularFile p loaded # ps) strategies engine (pre @ v # post) g (w, t)
     = visit ps strategies engine (pre @ v # post) g
         (w2, t @ map (\<lambda>i. Call i p r) [0..<Suc (length pre)] @ [ErrorProcessing p e])"
proof -
  assume "loaded g = Inr None \<and> r = Outcome None []
      \<or> (\<exists>img. loaded g = Inr (Some img) \<and> chain strategies img engine = Inr r)"
  then have out: "file_outcome strategies engine (loaded g) = Inr r"
    by (auto simp: file_outcome_def)
  assume pre: "notify pre 0 p r (w, t) = (None, (w1, t1))" and v: "v p r w1 = (Some e, w2)"
  from notify_trace [OF pre] have t1: "t1 = t @ calls 0 (length pre) p r" by simp
  have "notify (pre @ v # post) 0 p r (w, t) = notify (v # post) (0 + length pre) p r (w1, t1)"
    using pre by (rule notify_append)
  also have "\<dots> = (Some e, (w2, t1 @ [Call (length pre) p r]))"
    using v by simp
  finally have "process_file strategies engine (pre @ v # post) p (loaded g) (w, t)
      = (w2, t1 @ [Call (length pre) p r] @ [ErrorProcessing p e])"
    using out by (simp add: process_file_def try_file_outcome)
  then show ?thesis
    by (simp add: t1 calls_def)
qed

theorem sink_error_is_isolated_witness:
  "visit [image_file [''a.png''], not_an_image [''b.txt'']] [finding] ()
       ([quiet_sink] @ raising_sink # [quiet_sink]) False ((), [])
     = visit [not_an_image [''b.txt'']] [finding] () ([quiet_sink] @ raising_sink # [quiet_sink]) False
         ((), [Call 0 [''a.png''] (Outcome (Some ''roi'') [Barcode ''QRCODE'' ''A'']),
               Call 1 [''a.png''] (Outcome (Some ''roi'') [Barcode ''QRCODE'' ''A'']),
               ErrorProcessing [''a.png''] (Exception ''sink'')])"
  using sink_error_is_isolated [where loaded = "\<lambda>read_greyscale. Inr (Some ())" and g = False
      and r = "Outcome (Some ''roi'') [Barcode ''QRCODE'' ''A'']" and strategies = "[finding]"
      and engine = "()" and ps = "[not_an_image [''b.txt'']]" and p = "[''a.png'']"
      and pre = "[quiet_sink]" and v = raising_sink and post = "[quiet_sink]" and w = "()" and t = "[]"
      and ?w1.0 = "()" and ?t1.0 = "[Call 0 [''a.png''] (Outcome (Some ''roi'') [Barcode ''QRCODE'' ''A''])]"
      and e = "Exception ''sink''" and ?w2.0 = "()"]
  by (simp add: image_file_def finding_def quiet_sink_def raising_sink_def upt_rec)

subsection \<open>Order of traversal\<close>

lemma path_of_canon [simp]: "path_of (canon x) = path_of x"
  by (cases x) auto

lemma insort_key_map:
  "(\<And>y. k (f y) = k y) \<Longrightarrow> insort_key k (f x) (map f xs) = map f (insort_key k x xs)"
  by (induction xs) auto

lemma sort_key_map:
  "(\<And>y. k (f y) = k y) \<Longrightarrow> sort_key k (map f xs) = map f (sort_key k xs)"
  by (induction xs) (auto simp: insort_key_map)

lemma sort_key_canon: "sort_key path_of (map canon xs) = map canon (sort_key path_of xs)"
  by (rule sort_key_map) simp

lemma sort_key_idem: "sort_key k (sort_key k xs) = sort_key k xs"
  by (simp add: sorted_sort_key sort_key_id_if_sorted)

text \<open>Sorting the children of every directory beforehand changes nothing.\<close>

lemma canon_invisible:
  "decode (map canon paths) strategies engine visitors g s = decode paths strategies engine visitors g s"
  "visit (map canon paths) strategies engine visitors g s = visit paths strategies engine visitors g s"
proof (induction paths strategies engine visitors g s and paths strategies engine visitors g s
    rule: decode_visit.induct)
  case (1 paths strategies engine visitors read_greyscale s)
  then show ?case by (simp add: sort_key_canon)
next
  case (2 strategies engine visitors read_greyscale s)
  then show ?case by simp
next
  case (3 p children ps strategies engine visitors read_greyscale s)
  have "decode (sort_key path_of (map canon children)) strategies engine visitors read_greyscale s
      = visit (sort_key path_of (map canon children)) strategies engine visitors read_greyscale s"
    by (simp add: sort_key_idem)
  also have "\<dots> = decode (map canon children) strategies engine visitors read_greyscale s"
    by simp
  also have "\<dots> = decode children strategies engine visitors read_greyscale s"
    by (rule "3.IH"(1))
  finally have d: "decode (sort_key path_of (map canon children)) strategies engine visitors read_greyscale s
      = decode children strategies engine visitors read_greyscale s" .
  obtain x s' where r: "decode children strategies engine visitors read_greyscale s = (x, s')"
    by (cases "decode children strategies engine visitors read_greyscale s")
  show ?case
  proof (cases x)
    case None
    with r "3.IH"(2) have "visit (map canon ps) strategies engine visitors read_greyscale s'
        = visit ps strategies engine visitors read_greyscale s'"
      by simp
    with None r d show ?thesis by simp
  next
    case (Some e)
    with r d show ?thesis by simp
  qed
next
  case (4 p e ps strategies engine visitors read_greyscale s)
  then show ?case by simp
next
  case (5 p e ps strategies engine visitors read_greyscale s)
  then show ?case by simp
next
  case (6 p loaded ps strategies engine visitors read_greyscale s)
  then show ?case by simp
qed

lemma blocks_Nil [simp]: "blocks strict [] []"
  by (simp add: blocks_def)

lemma blocks_single:
  "map event_path evs = replicate (length evs) p \<Longrightarrow> (strict \<longrightarrow> evs \<noteq> []) \<Longrightarrow>
   blocks strict [p] evs"
  unfolding blocks_def by (intro exI [of _ "[length evs]"]) simp

lemma blocks_append:
  "blocks strict ps evs \<Longrightarrow> blocks strict qs evs' \<Longrightarrow> blocks strict (ps @ qs) (evs @ evs')"
proof -
  assume "blocks strict ps evs" "blocks strict qs evs'"
  then obtain ns ms where
    ns: "length ns = length ps" "map event_path evs = concat (map2 replicate ns ps)" "strict \<longrightarrow> 0 \<notin> set ns"
    and ms: "length ms = length qs" "map event_path evs' = concat (map2 replicate ms qs)" "strict \<longrightarrow> 0 \<notin> set ms"
    unfolding blocks_def by blast
  show ?thesis
    unfolding blocks_def using ns ms
    by (intro exI [of _ "ns @ ms"]) auto
qed

text \<open>The events of one file.\<close>

lemma process_file_block:
  "\<exists>w' new. process_file strategies engine visitors p img (w, t) = (w', t @ new)
      \<and> map event_path new = replicate (length new) p
      \<and> (visitors \<noteq> [] \<longrightarrow> new \<noteq> [])"
proof (cases "file_outcome strategies engine img")
  case (Inl e)
  then have "process_file strategies engine visitors p img (w, t) = (w, t @ [ErrorProcessing p e])"
    by (rule process_file_error)
  then show ?thesis by simp
next
  case (Inr r)
  obtain x w' t' where n: "notify visitors 0 p r (w, t) = (x, (w', t'))"
    by (cases "notify visitors 0 p r (w, t)") auto
  from notify_trace [OF n] obtain k where
    k: "k \<le> length visitors" "t' = t @ calls 0 k p r" "x = None \<longrightarrow> k = length visitors"
    by blast
  have c: "map event_path (calls 0 k p r) = replicate k p"
    by (simp add: calls_def comp_def map_replicate_const)
  show ?thesis
  proof (cases x)
    case None
    with Inr n k have "process_file strategies engine visitors p img (w, t) = (w', t @ calls 0 k p r)"
      by (simp add: process_file_def try_file_outcome)
    moreover have "length (calls 0 k p r) = k" by (simp add: calls_def)
    moreover from None k have "visitors \<noteq> [] \<longrightarrow> calls 0 k p r \<noteq> []"
      by (auto simp: calls_def)
    ultimately show ?thesis using c by auto
  next
    case (Some e)
    with Inr n k have "process_file strategies engine visitors p img (w, t)
        = (w', t @ (calls 0 k p r @ [ErrorProcessing p e]))"
      by (simp add: process_file_def try_file_outcome)
    moreover have "map event_path (calls 0 k p r @ [ErrorProcessing p e])
        = replicate (length (calls 0 k p r @ [ErrorProcessing p e])) p"
      using c by (simp add: calls_def replicate_append_same)
    ultimately show ?thesis by blast
  qed
qed

lemma traced_stop: "traced strict L t (Some e, (w, t))"
  unfolding traced_def by (intro exI [of _ 0] exI [of _ "[]"]) simp

lemma traced_done: "traced strict [] t (None, (w, t))"
  unfolding traced_def by (intro exI [of _ 0] exI [of _ "[]"]) simp

lemma traced_seq:
  "traced strict A t (None, (w1, t1)) \<Longrightarrow> traced strict B t1 r \<Longrightarrow> traced strict (A @ B) t r"
proof -
  assume 1: "traced strict A t (None, (w1, t1))" and 2: "traced strict B t1 r"
  from 1 have "\<exists>new1. t1 = t @ new1 \<and> blocks strict A new1"
    unfolding traced_def by auto
  then obtain new1 where a: "t1 = t @ new1" "blocks strict A new1" by (elim exE conjE)
  from 2 obtain m2 new2 where
    b: "snd (snd r) = t1 @ new2" "blocks strict (take m2 B) new2" "fst r = None \<longrightarrow> m2 = length B"
    unfolding traced_def by (elim exE conjE)
  from a b have "blocks strict (take (length A + m2) (A @ B)) (new1 @ new2)"
    by (simp add: blocks_append)
  with a b show ?thesis
    unfolding traced_def by (intro exI [of _ "length A + m2"] exI [of _ "new1 @ new2"]) simp
qed

lemma traced_abort:
  "traced strict A t (Some e, s) \<Longrightarrow> traced strict (A @ B) t (Some e, s)"
proof -
  assume "traced strict A t (Some e, s)"
  then have "\<exists>m new. snd s = t @ new \<and> blocks strict (take m A) new"
    unfolding traced_def by auto
  then obtain m new where a: "snd s = t @ new" "blocks strict (take m A) new"
    by (elim exE conjE)
  have "take (min m (length A)) (A @ B) = take m A" by (simp add: min_def)
  with a show ?thesis
    unfolding traced_def by (intro exI [of _ "min m (length A)"] exI [of _ new]) simp
qed


lemma leaves_sorted_tree:
  "concat (map leaves (sorted_tree paths)) = concat (map (\<lambda>x. leaves (canon x)) (sort_key path_of paths))"
  by (simp add: sorted_tree_def sort_key_canon comp_def)

lemma leaves_canon_Directory:
  "leaves (canon (Directory p children)) = concat (map leaves (sorted_tree children))"
  by (simp add: sorted_tree_def)

lemma decode_traced:
  "traced (visitors \<noteq> []) (concat (map leaves (sorted_tree paths))) (snd s)
     (decode paths strategies engine visitors g s)"
  "traced (visitors \<noteq> []) (concat (map (\<lambda>x. leaves (canon x)) paths)) (snd s)
     (visit paths strategies engine visitors g s)"
proof (induction paths strategies engine visitors g s and paths strategies engine visitors g s
    rule: decode_visit.induct)
  case (1 paths strategies engine visitors read_greyscale s)
  then show ?case by (simp add: leaves_sorted_tree)
next
  case (2 strategies engine visitors read_greyscale s)
  show ?case using traced_done [of _ "snd s" "fst s"] by simp
next
  case (3 p children ps strategies engine visitors read_greyscale s)
  let ?A = "concat (map leaves (sorted_tree children))"
  let ?B = "concat (map (\<lambda>x. leaves (canon x)) ps)"
  obtain x w1 t1 where d: "decode children strategies engine visitors read_greyscale s = (x, (w1, t1))"
    by (cases "decode children strategies engine visitors read_greyscale s") auto
  from "3.IH"(1) d have a: "traced (visitors \<noteq> []) ?A (snd s) (x, (w1, t1))" by simp
  have l: "concat (map (\<lambda>x. leaves (canon x)) (Directory p children # ps)) = ?A @ ?B"
    by (simp add: sorted_tree_def)
  show ?case
  proof (cases x)
    case None
    with d "3.IH"(2) have "traced (visitors \<noteq> []) ?B t1
        (visit ps strategies engine visitors read_greyscale (w1, t1))"
      by simp
    with a None have "traced (visitors \<noteq> []) (?A @ ?B) (snd s)
        (visit ps strategies engine visitors read_greyscale (w1, t1))"
      by (intro traced_seq) simp_all
    with None d l show ?thesis by simp
  next
    case (Some e)
    with a have "traced (visitors \<noteq> []) (?A @ ?B) (snd s) (Some e, (w1, t1))"
      by (intro traced_abort) simp
    with Some d l show ?thesis by simp
  qed
next
  case (4 p e ps strategies engine visitors read_greyscale s)
  show ?case using traced_stop [of _ _ "snd s" e "fst s"] by simp
next
  case (5 p e ps strategies engine visitors read_greyscale s)
  show ?case using traced_stop [of _ _ "snd s" e "fst s"] by simp
next
  case (6 p loaded ps strategies engine visitors read_greyscale s)
  let ?B = "concat (map (\<lambda>x. leaves (canon x)) ps)"
  obtain w t where s: "s = (w, t)" by (cases s)
  from process_file_block [of strategies engine visitors p "loaded read_greyscale" w t]
  obtain w' new where
    pf: "process_file strategies engine visitors p (loaded read_greyscale) (w, t) = (w', t @ new)"
    and b: "map event_path new = replicate (length new) p" "visitors \<noteq> [] \<longrightarrow> new \<noteq> []"
    by (elim exE conjE)
  from b have "blocks (visitors \<noteq> []) [p] new" by (rule blocks_single)
  then have "traced (visitors \<noteq> []) [p] t (None, (w', t @ new))"
    unfolding traced_def by (intro exI [of _ 1] exI [of _ new]) simp
  moreover from "6.IH" s pf have "traced (visitors \<noteq> []) ?B (t @ new)
      (visit ps strategies engine visitors read_greyscale (w', t @ new))"
    by simp
  ultimately have "traced (visitors \<noteq> []) ([p] @ ?B) t
      (visit ps strategies engine visitors read_greyscale (w', t @ new))"
    by (rule traced_seq)
  with s pf show ?case by simp
qed

lemma ordered_canon: "ordered (canon x)"
  by (induction x) (auto simp: sort_key_canon sorted_sort_key list_all_sort_key list_all_iff
      simp flip: sort_key_canon)


lemma sorted_tree_ordered:
  "sorted (map path_of (sorted_tree paths)) \<and> list_all ordered (sorted_tree paths)"
  by (simp add: sorted_tree_def sorted_sort_key list_all_sort_key list_all_iff ordered_canon)

text \<open>Sorting every level rearranges the files of a tree and loses none.\<close>

lemma mset_concat_insort_key:
  "mset (concat (map f (insort_key k x xs))) = mset (f x) + mset (concat (map f xs))"
  by (induction xs) auto

lemma mset_concat_sort_key:
  "mset (concat (map f (sort_key k xs))) = mset (concat (map f xs))"
  by (induction xs) (auto simp: mset_concat_insort_key)

lemma mset_concat_cong:
  "(\<And>x. x \<in> set xs \<Longrightarrow> mset (f x) = mset (g x)) \<Longrightarrow>
   mset (concat (map f xs)) = mset (concat (map g xs))"
  by (induction xs) auto

lemma mset_leaves_canon: "mset (leaves (canon x)) = mset (leaves x)"
proof (induction x)
  case (Directory p children)
  have "mset (concat (map (\<lambda>x. leaves (canon x)) children)) = mset (concat (map leaves children))"
    using Directory.IH by (intro mset_concat_cong) simp
  then show ?case
    by (simp add: mset_concat_sort_key comp_def)
qed simp_all

lemma mset_leaves_sorted_tree:
  "mset (concat (map leaves (sorted_tree paths))) = mset (concat (map leaves paths))"
proof -
  have "mset (concat (map (\<lambda>x. leaves (canon x)) paths)) = mset (concat (map leaves paths))"
    by (intro mset_concat_cong) (simp add: mset_leaves_canon)
  then show ?thesis
    by (simp add: sorted_tree_def mset_concat_sort_key comp_def)
qed

text \<open>
  Claim C8: \<open>decode\<close> visits the entries in ascending order of path at every level
  of the recursion. With \<open>sorted_tree paths\<close> the tree in which the top level and the
  children of every directory are in ascending order of path (it has the files of
  \<open>paths\<close>, each as often), the events of a run
  come in blocks, one per file, in the order in which the files stand in that tree
  (depth first); a run that ends without an exception goes through all of them, a
  run that an exception ends through an initial part; and with at least one sink every
  file visited has events. The order in which the paths are given or a directory
  enumerates its children plays no part: two presentations with the same sorted tree
  yield the same run, sink call for sink call.
\<close>

theorem decode_visits_in_sorted_order:
  "sorted (map path_of (sorted_tree paths))
   \<and> list_all ordered (sorted_tree paths)
   \<and> mset (concat (map leaves (sorted_tree paths))) = mset (concat (map leaves paths))
   \<and> (\<exists>m new.
         snd (snd (decode paths strategies engine visitors g (w, t))) = t @ new
         \<and> blocks (visitors \<noteq> []) (take m (concat (map leaves (sorted_tree paths)))) new
         \<and> (fst (decode paths strategies engine visitors g (w, t)) = None \<longrightarrow>
              m = length (concat (map leaves (sorted_tree paths)))))
   \<and> (sorted_tree paths' = sorted_tree paths \<longrightarrow>
        decode paths' strategies engine visitors g (w, t)
          = decode paths strategies engine visitors g (w, t))"
proof -
  have "traced (visitors \<noteq> []) (concat (map leaves (sorted_tree paths))) t
      (decode paths strategies engine visitors g (w, t))"
    using decode_traced(1) [of visitors paths "(w, t)" strategies engine g] by simp
  then have 1: "\<exists>m new.
         snd (snd (decode paths strategies engine visitors g (w, t))) = t @ new
         \<and> blocks (visitors \<noteq> []) (take m (concat (map leaves (sorted_tree paths)))) new
         \<and> (fst (decode paths strategies engine visitors g (w, t)) = None \<longrightarrow>
              m = length (concat (map leaves (sorted_tree paths))))"
    unfolding traced_def .
  have 2: "decode paths' strategies engine visitors g (w, t)
      = decode paths strategies engine visitors g (w, t)"
    if a: "sorted_tree paths' = sorted_tree paths"
  proof -
    have "decode paths' strategies engine visitors g (w, t)
        = visit (sorted_tree paths') strategies engine visitors g (w, t)"
      using canon_invisible(1) [of paths' strategies engine visitors g "(w, t)"]
      by (simp add: sorted_tree_def)
    also have "\<dots> = visit (sorted_tree paths) strategies engine visitors g (w, t)"
      by (simp only: a)
    also have "\<dots> = decode paths strategies engine visitors g (w, t)"
      using canon_invisible(1) [of paths strategies engine visitors g "(w, t)"]
      by (simp add: sorted_tree_def)
    finally show ?thesis .
  qed
  from 1 2 sorted_tree_ordered [of paths] mset_leaves_sorted_tree [of paths]
  show ?thesis by blast
qed

theorem decode_visits_in_sorted_order_witness:
  "concat (map leaves (sorted_tree small_tree)) = [[''d'', ''a.txt''], [''d'', ''b.txt''], [''m.txt'']]
   \<and> decode small_tree [finding] () [quiet_sink] False ((), [])
     = (None, ((), [Call 0 [''d'', ''a.txt''] (Outcome None []),
                    Call 0 [''d'', ''b.txt''] (Outcome None []),
                    Call 0 [''m.txt''] (Outcome None [])]))
   \<and> blocks True [[''d'', ''a.txt''], [''d'', ''b.txt''], [''m.txt'']]
         [Call 0 [''d'', ''a.txt''] (Outcome None []),
          Call 0 [''d'', ''b.txt''] (Outcome None []),
          Call 0 [''m.txt''] (Outcome None [])]
   \<and> decode small_tree' [finding] () [quiet_sink] False ((), [])
     = decode small_tree [finding] () [quiet_sink] False ((), [])"
proof -
  have t: "sorted_tree small_tree = small_tree'" "sorted_tree small_tree' = small_tree'"
    by (simp_all add: sorted_tree_def small_tree_def small_tree'_def not_an_image_def)
  have l: "concat (map leaves (sorted_tree small_tree))
      = [[''d'', ''a.txt''], [''d'', ''b.txt''], [''m.txt'']]"
    by (simp add: t small_tree'_def not_an_image_def)
  have l': "concat (map leaves small_tree') = [[''d'', ''a.txt''], [''d'', ''b.txt''], [''m.txt'']]"
    by (simp add: small_tree'_def not_an_image_def)
  have d: "decode small_tree [finding] () [quiet_sink] False ((), [])
      = (None, ((), [Call 0 [''d'', ''a.txt''] (Outcome None []),
                     Call 0 [''d'', ''b.txt''] (Outcome None []),
                     Call 0 [''m.txt''] (Outcome None [])]))"
    by (simp add: small_tree_def not_an_image_def quiet_sink_def process_file_def try_file_def)
  have "blocks True [[''d'', ''a.txt''], [''d'', ''b.txt''], [''m.txt'']]
         [Call 0 [''d'', ''a.txt''] (Outcome None []),
          Call 0 [''d'', ''b.txt''] (Outcome None []),
          Call 0 [''m.txt''] (Outcome None [])]"
    and "decode small_tree' [finding] () [quiet_sink] False ((), [])
      = decode small_tree [finding] () [quiet_sink] False ((), [])"
    using decode_visits_in_sorted_order [where paths = small_tree and paths' = small_tree'
      and strategies = "[finding]" and engine = "()" and visitors = "[quiet_sink]" and g = False
      and w = "()" and t = "[]"]
    unfolding t l d by (auto simp: l')
  with l d show ?thesis by simp
qed


section \<open>Properties of the region decoder\<close>

subsection \<open>Pixels and crops\<close>

lemma map2_map_same: "map2 f (map g xs) (map h xs) = map (\<lambda>x. f (g x) (h x)) xs"
  by (induction xs) auto

lemma map2_map_right: "map2 f xs (map h xs) = map (\<lambda>x. f x (h x)) xs"
  using map2_map_same [of f "\<lambda>x. x" xs h] by simp

lemma unat_saturate_add: "unat (saturate_add a b) = min 255 (unat a + unat b)"
proof (cases "255 < unat a + unat b")
  case True
  then show ?thesis by (simp add: saturate_add_def)
next
  case False
  then have "unat a + unat b < 2 ^ LENGTH(8)" by simp
  then have "unat (a + b) = unat a + unat b" by (simp only: unat_add_lem)
  with False show ?thesis by (simp add: saturate_add_def)
qed

lemma unat_saturate_subtract: "unat (saturate_subtract a b) = unat a - unat b"
proof (cases "unat a < unat b")
  case True
  then show ?thesis by (simp add: saturate_subtract_def)
next
  case False
  then have "b \<le> a" by (simp add: word_le_nat_alt)
  then have "unat (a - b) = unat a - unat b" by (rule unat_sub)
  with False show ?thesis by (simp add: saturate_subtract_def)
qed

lemma saturate_add_0 [simp]: "saturate_add a 0 = a" "saturate_add 0 a = a"
  using unsigned_less [of a, where 'a = nat] by (simp_all add: saturate_add_def)

lemma unat_remap:
  "unat (remap p) = (if 0x80 \<le> unat p then min 255 (unat p + 0x10) else unat p - 0x5a)"
  by (simp add: remap_def unat_saturate_add unat_saturate_subtract word_le_nat_alt)

text \<open>
  Where OpenCV takes the two integers for scalars, the five calls of the contrast step
  amount to one remap per pixel; on a crop of four rows and one column the first
  \<open>cv2.add\<close> raises.
\<close>

lemma contrast_remap:
  "\<not> four_by_one crop \<Longrightarrow> scalar_operand cv crop \<Longrightarrow> contrast cv crop = Inr (map (map remap) crop)"
proof -
  assume a: "\<not> four_by_one crop" "scalar_operand cv crop"
  have big: "add_scalar cv crop 0x10 (compare_GE crop 0x80)
      = Inr (map (map (\<lambda>p. if 0x80 \<le> p then saturate_add p 0x10 else 0)) crop)"
    using a by (simp add: add_scalar_def compare_GE_def map2_map_right)
  have small: "subtract_scalar cv crop 0x5a (bitwise_not (compare_GE crop 0x80))
      = Inr (map (map (\<lambda>p. if 0x80 \<le> p then 0 else saturate_subtract p 0x5a)) crop)"
    using a by (simp add: subtract_scalar_def compare_GE_def bitwise_not_def map2_map_right if_distrib cong: if_cong)
  show ?thesis
    by (simp add: contrast_def Let_def big small add_arrays_def map2_map_same remap_def if_distrib cong: if_cong)
qed

lemma contrast_four_by_one: "four_by_one crop \<Longrightarrow> contrast cv crop = Inl cv2_error"
  by (simp add: contrast_def add_scalar_def)

text \<open>The loop body appends the symbols of its candidate, or raises as they do.\<close>

lemma candidate_symbols:
  "fst (candidate cv eng img rect res hist)
     = (case symbols cv eng img rect of Inl e \<Rightarrow> Inl e | Inr bs \<Rightarrow> Inr (res @ bs))"
  by (simp add: candidate_def symbols_def sharpened_def Let_def split: prod.splits sum.splits)

subsection \<open>One candidate\<close>

lemma sharpened_faint: "sharpened plain_cv faint_image whole_image = Inr faint_image"
  by (simp add: sharpened_def plain_cv_def faint_image_def whole_image_def coordinates_def
      py_slice_def clip_index_def)

lemma contrast_faint: "contrast plain_cv faint_image = Inr [[0x90, 0x00, 0xFF, 0x0A]]"
proof -
  have "\<not> four_by_one faint_image" by (simp add: four_by_one_def faint_image_def)
  moreover have "scalar_operand plain_cv faint_image" by (simp add: plain_cv_def)
  ultimately have "contrast plain_cv faint_image = Inr (map (map remap) faint_image)"
    by (rule contrast_remap)
  then show ?thesis
    by (simp add: faint_image_def remap_def saturate_add_def saturate_subtract_def)
qed

lemma candidate_retry:
  "sharpened cv img rect = Inr crop \<Longrightarrow> eng crop = Inr [] \<Longrightarrow>
   contrast cv crop = Inr crop2 \<Longrightarrow> eng crop2 = Inr bs \<Longrightarrow>
   candidate cv eng img rect res hist = (Inr (res @ bs), hist @ [crop, crop2])"
  by (auto simp: candidate_def sharpened_def Let_def split: prod.splits sum.splits)

lemma candidate_retry_raises:
  "sharpened cv img rect = Inr crop \<Longrightarrow> eng crop = Inr [] \<Longrightarrow>
   contrast cv crop = Inl e \<Longrightarrow>
   candidate cv eng img rect res hist = (Inl e, hist @ [crop])"
  by (auto simp: candidate_def sharpened_def Let_def split: prod.splits sum.splits)

lemma candidate_faint_blind:
  "candidate plain_cv blind_engine faint_image whole_image [] []
     = (Inr [], [faint_image, [[0x90, 0x00, 0xFF, 0x0A]]])"
  using candidate_retry [OF sharpened_faint _ contrast_faint, of blind_engine "[]" "[]" "[]"]
  by (simp add: blind_engine_def)

text \<open>
  The contrast fallback where OpenCV takes the integers for scalars: the engine is
  invoked on the sharpened crop and then once more, on its remap, which adds \<open>0x10\<close>
  to every pixel at or above \<open>0x80\<close> and subtracts \<open>0x5a\<close> from every pixel below,
  stopping at 255 and at 0.
\<close>

lemma contrast_fallback_once:
  "sharpened cv img rect = Inr crop \<Longrightarrow> eng crop = Inr [] \<Longrightarrow>
   \<not> four_by_one crop \<Longrightarrow> scalar_operand cv crop \<Longrightarrow>
   eng (map (map remap) crop) = Inr bs \<Longrightarrow>
   candidate cv eng img rect res hist = (Inr (res @ bs), hist @ [crop, map (map remap) crop])
   \<and> map (map unat) (map (map remap) crop)
     = map (map (\<lambda>p. if 0x80 \<le> unat p then min 255 (unat p + 0x10) else unat p - 0x5a)) crop"
  using candidate_retry [of cv img rect crop eng "map (map remap) crop" bs res hist]
  by (simp add: contrast_remap unat_remap comp_def)

text \<open>
  On a crop of four rows and one column whose sharpened form decodes to nothing, the
  loop body raises in the contrast step, after one invocation of the engine.
\<close>

lemma four_by_one_crop_raises:
  "sharpened cv img rect = Inr crop \<Longrightarrow> eng crop = Inr [] \<Longrightarrow> four_by_one crop \<Longrightarrow>
   candidate cv eng img rect res hist = (Inl cv2_error, hist @ [crop])"
  by (rule candidate_retry_raises) (simp_all add: contrast_four_by_one)

lemma sharpened_tall: "sharpened plain_cv tall_image whole_tall_image = Inr tall_image"
  by (simp add: sharpened_def plain_cv_def tall_image_def whole_tall_image_def coordinates_def
      py_slice_def clip_index_def)

text \<open>
  Claim C5 is what the decoder is meant to do, and the code does not do it for every
  candidate rectangle: for a candidate one pixel wide and four pixels high whose
  sharpened crop decodes to nothing, \<open>cv2.add(crop, 0x10, mask=bigmask)\<close> raises
  \<open>cv2.error\<close>. The crop is not remapped, the engine is not invoked a second time
  (its history holds the sharpened crop only), and the exception leaves
  \<open>_compute_barcodes\<close> and \<open>__iter__\<close>. On the same pixels in one row the remap is
  applied and the engine invoked on it.
\<close>

theorem contrast_raises_on_four_by_one_crop:
  "four_by_one tall_image
   \<and> candidate plain_cv blind_engine tall_image whole_tall_image [] []
       = (Inl cv2_error, [tall_image])
   \<and> iter plain_cv (init (Grey tall_image) [whole_tall_image] blind_engine, [])
       = (Inl cv2_error, init (Grey tall_image) [whole_tall_image] blind_engine, [tall_image])
   \<and> candidate plain_cv picky_engine faint_image whole_image [] []
       = (Inr [Barcode ''QRCODE'' ''A''], [faint_image, [[0x90, 0x00, 0xFF, 0x0A]]])"
proof -
  have f: "four_by_one tall_image"
    by (simp add: four_by_one_def tall_image_def)
  have c: "candidate plain_cv blind_engine tall_image whole_tall_image [] []
      = (Inl cv2_error, [tall_image])"
    using four_by_one_crop_raises [OF sharpened_tall _ f, of blind_engine "[]" "[]"]
    by (simp add: blind_engine_def)
  have i: "iter plain_cv (init (Grey tall_image) [whole_tall_image] blind_engine, [])
      = (Inl cv2_error, init (Grey tall_image) [whole_tall_image] blind_engine, [tall_image])"
    by (simp add: iter_def init_def compute_barcodes_def c)
  have p: "candidate plain_cv picky_engine faint_image whole_image [] []
      = (Inr [Barcode ''QRCODE'' ''A''], [faint_image, [[0x90, 0x00, 0xFF, 0x0A]]])"
    using candidate_retry [OF sharpened_faint _ contrast_faint,
        of picky_engine "[Barcode ''QRCODE'' ''A'']" "[]" "[]"]
    by (simp add: picky_engine_def faint_image_def)
  from f c i p show ?thesis by simp
qed

subsection \<open>All candidates\<close>

text \<open>The loop returns exactly when every candidate yields symbols.\<close>

lemma candidates_loop_symbols:
  "(fst (candidates_loop cv eng img rects res hist) = Inr out)
     = (\<exists>groups. map (symbols cv eng img) rects = map Inr groups \<and> out = res @ concat groups)"
proof (induction rects arbitrary: res hist)
  case Nil
  then show ?case by auto
next
  case (Cons r rects)
  obtain x h where c: "candidate cv eng img r res hist = (x, h)"
    by (cases "candidate cv eng img r res hist")
  show ?case
  proof (cases "symbols cv eng img r")
    case (Inl e)
    with c candidate_symbols [of cv eng img r res hist] have "x = Inl e" by simp
    with c Inl show ?thesis by auto
  next
    case (Inr bs)
    with c candidate_symbols [of cv eng img r res hist] have x: "x = Inr (res @ bs)" by simp
    have "(\<exists>groups. map (symbols cv eng img) (r # rects) = map Inr groups \<and> out = res @ concat groups)
        = (\<exists>groups. map (symbols cv eng img) rects = map Inr groups \<and> out = (res @ bs) @ concat groups)"
    proof
      assume "\<exists>groups. map (symbols cv eng img) (r # rects) = map Inr groups \<and> out = res @ concat groups"
      then obtain groups where g: "map (symbols cv eng img) (r # rects) = map Inr groups"
        "out = res @ concat groups" by blast
      then obtain g1 gs where "groups = g1 # gs" by (cases groups) auto
      with g Inr show "\<exists>groups. map (symbols cv eng img) rects = map Inr groups \<and> out = (res @ bs) @ concat groups"
        by auto
    next
      assume "\<exists>groups. map (symbols cv eng img) rects = map Inr groups \<and> out = (res @ bs) @ concat groups"
      then obtain gs where "map (symbols cv eng img) rects = map Inr gs" "out = (res @ bs) @ concat gs"
        by blast
      with Inr show "\<exists>groups. map (symbols cv eng img) (r # rects) = map Inr groups \<and> out = res @ concat groups"
        by (intro exI [of _ "bs # gs"]) simp
    qed
    with c x Cons.IH [of "res @ bs" h] show ?thesis by simp
  qed
qed

text \<open>
  Claim C7: \<open>_compute_barcodes\<close> returns a sequence exactly when the conversion of the
  image and the steps of every candidate go through without an exception, and the
  sequence is then the concatenation, in the order of the candidate rectangles, of
  the symbols the engine returned for each candidate, each group in the order the
  engine returned it.
\<close>

theorem compute_barcodes_order:
  "(fst (compute_barcodes cv self hist) = Inr out)
     = (\<exists>img groups.
          normalized cv (self_img self) = Inr img
          \<and> map (symbols cv (self_engine self) img) (self_candidates self) = map Inr groups
          \<and> out = concat groups)"
  using candidates_loop_symbols [of cv "self_engine self" _ "self_candidates self" "[]" hist out]
  by (auto simp: compute_barcodes_def normalized_def split: image.splits sum.splits)

theorem compute_barcodes_order_witness:
  "fst (compute_barcodes plain_cv (init (Grey faint_image) [whole_image, whole_image] picky_engine) [])
     = Inr [Barcode ''QRCODE'' ''A'', Barcode ''QRCODE'' ''A'']"
proof -
  have e1: "picky_engine faint_image = Inr []"
    by (simp add: picky_engine_def faint_image_def)
  have e2: "picky_engine [[0x90, 0x00, 0xFF, 0x0A]] = Inr [Barcode ''QRCODE'' ''A'']"
    by (simp add: picky_engine_def)
  have s: "symbols plain_cv picky_engine faint_image whole_image = Inr [Barcode ''QRCODE'' ''A'']"
    by (simp add: symbols_def sharpened_faint contrast_faint e1 e2)
  have "\<exists>img groups.
      normalized plain_cv (self_img (init (Grey faint_image) [whole_image, whole_image] picky_engine))
        = Inr img
      \<and> map (symbols plain_cv
            (self_engine (init (Grey faint_image) [whole_image, whole_image] picky_engine)) img)
          (self_candidates (init (Grey faint_image) [whole_image, whole_image] picky_engine))
        = map Inr groups
      \<and> [Barcode ''QRCODE'' ''A'', Barcode ''QRCODE'' ''A''] = concat groups"
    by (intro exI [of _ faint_image] exI [of _ "[[Barcode ''QRCODE'' ''A''], [Barcode ''QRCODE'' ''A'']]"])
      (simp add: init_def normalized_def s)
  then show ?thesis
    by (simp only: compute_barcodes_order)
qed

subsection \<open>Memoization\<close>

text \<open>
  A computation that returns has invoked the engine, at least once per candidate, and
  has only added to the history of its invocations.
\<close>

lemma candidate_history:
  "candidate cv eng img rect res hist = (Inr res', hist') \<Longrightarrow>
   \<exists>calls. hist' = hist @ calls \<and> calls \<noteq> []"
  by (auto simp: candidate_def Let_def split: prod.splits sum.splits if_splits)

lemma candidates_loop_history:
  "candidates_loop cv eng img rects res hist = (Inr out, hist') \<Longrightarrow>
   \<exists>calls. hist' = hist @ calls \<and> length rects \<le> length calls"
proof (induction rects arbitrary: res hist)
  case Nil
  then show ?case by simp
next
  case (Cons r rects)
  obtain x h where c: "candidate cv eng img r res hist = (x, h)"
    by (cases "candidate cv eng img r res hist")
  with Cons.prems obtain res' where x: "x = Inr res'"
    and l: "candidates_loop cv eng img rects res' h = (Inr out, hist')"
    by (cases x) auto
  from candidate_history [OF c [unfolded x]] obtain c1 where c1: "h = hist @ c1" "c1 \<noteq> []"
    by (elim exE conjE)
  from Cons.IH [OF l] obtain c2 where c2: "hist' = h @ c2" "length rects \<le> length c2"
    by (elim exE conjE)
  from c1 have "1 \<le> length c1" by (cases c1) auto
  with c1 c2 show ?case
    by (intro exI [of _ "c1 @ c2"]) simp
qed

lemma compute_barcodes_history:
  "compute_barcodes cv self hist = (Inr out, hist') \<Longrightarrow>
   \<exists>calls. hist' = hist @ calls \<and> length (self_candidates self) \<le> length calls"
  by (auto simp: compute_barcodes_def split: image.splits sum.splits
      dest: candidates_loop_history)

text \<open>
  Claim C6: on the first access to a decoder that has computed nothing yet, the
  sequence is what \<open>_compute_barcodes\<close> returns, the engine is invoked then (at
  least once per candidate, the invocations being added to its history), and the
  sequence is stored in the decoder, also when it is empty. A second
  access returns the same sequence and leaves the decoder and the history of engine
  invocations as they were, and so does every later access, whatever the engine has
  been used for in between.
\<close>

theorem iter_is_memoized:
  "self_barcodes self = None \<Longrightarrow>
   compute_barcodes cv self hist = (Inr res, hist') \<Longrightarrow>
   iter cv (self, hist) = (Inr res, self\<lparr>self_barcodes := Some res\<rparr>, hist')
   \<and> (\<exists>calls. hist' = hist @ calls \<and> length (self_candidates self) \<le> length calls)
   \<and> iter cv (self\<lparr>self_barcodes := Some res\<rparr>, hist')
        = (Inr res, self\<lparr>self_barcodes := Some res\<rparr>, hist')
   \<and> iter cv (self\<lparr>self_barcodes := Some res\<rparr>, later)
        = (Inr res, self\<lparr>self_barcodes := Some res\<rparr>, later)"
proof -
  assume n: "self_barcodes self = None" and c: "compute_barcodes cv self hist = (Inr res, hist')"
  from n c have first: "iter cv (self, hist) = (Inr res, self\<lparr>self_barcodes := Some res\<rparr>, hist')"
    by (simp add: iter_def)
  have again: "iter cv (self\<lparr>self_barcodes := Some res\<rparr>, h)
      = (Inr res, self\<lparr>self_barcodes := Some res\<rparr>, h)" for h
    by (simp add: iter_def)
  from first compute_barcodes_history [OF c] again show ?thesis
    by simp
qed

theorem iter_is_memoized_witness:
  "self_barcodes (init (Grey faint_image) [whole_image] blind_engine) = None
   \<and> compute_barcodes plain_cv (init (Grey faint_image) [whole_image] blind_engine) []
       = (Inr [], [faint_image, [[0x90, 0x00, 0xFF, 0x0A]]])
   \<and> iter plain_cv (init (Grey faint_image) [whole_image] blind_engine, [])
       = (Inr [], (init (Grey faint_image) [whole_image] blind_engine)\<lparr>self_barcodes := Some []\<rparr>,
          [faint_image, [[0x90, 0x00, 0xFF, 0x0A]]])
   \<and> iter plain_cv ((init (Grey faint_image) [whole_image] blind_engine)\<lparr>self_barcodes := Some []\<rparr>,
          [faint_image, [[0x90, 0x00, 0xFF, 0x0A]]])
       = (Inr [], (init (Grey faint_image) [whole_image] blind_engine)\<lparr>self_barcodes := Some []\<rparr>,
          [faint_image, [[0x90, 0x00, 0xFF, 0x0A]]])"
proof -
  have n: "self_barcodes (init (Grey faint_image) [whole_image] blind_engine) = None"
    by (simp add: init_def)
  have c: "compute_barcodes plain_cv (init (Grey faint_image) [whole_image] blind_engine) []
      = (Inr [], [faint_image, [[0x90, 0x00, 0xFF, 0x0A]]])"
    by (simp add: compute_barcodes_def init_def candidate_faint_blind)
  from iter_is_memoized [OF n c] n c show ?thesis by simp
qed


section \<open>Properties of the rename sink\<close>

subsection \<open>Evaluating the sink on a concrete disk\<close>

lemmas path_defs = with_name_def path_name_def path_suffix_def path_stem_def numbered_def digit_def
lemmas sink_defs = result_def destination_def act_def say_def rename_def copy2_def is_file_def
  next_suffix_def sanitize_def allowed_def Let_def




subsection \<open>Collision avoidance\<close>

lemma fst_next_suffix_upd [simp]: "fst (next_suffix (sfx(n \<mapsto> k)) n) = k"
  by (simp add: next_suffix_def)






subsection \<open>Several barcodes in one file\<close>

lemma destination_free:
  "\<not> is_file (files self) d \<Longrightarrow> destination self d = (Inr d, self)"
  by (simp add: destination_def destination_loop.simps)

lemma lookup_fold_fmupd:
  "fmlookup (fold (\<lambda>x. fmupd x c) ds m) y = (if y \<in> set ds then Some c else fmlookup m y)"
  by (induction ds arbitrary: m) auto

lemma rename_values_copies:
  "fmlookup (files self) f = Some c \<Longrightarrow>
   map (\<lambda>v. with_name path (v @ path_suffix path)) vs = map Inr ds \<Longrightarrow>
   distinct ds \<Longrightarrow>
   \<forall>x\<in>set ds. \<not> is_file (files self) x \<and> x \<notin> dirs self \<Longrightarrow>
   rename_values path vs (Some f) self
     = (None, self\<lparr>files := fold (\<lambda>x. fmupd x c) ds (files self),
                     printed := printed self @ map Copied ds\<rparr>)"
proof (induction vs arbitrary: ds self)
  case Nil
  then show ?case by simp
next
  case (Cons v vs)
  from Cons.prems(2) obtain d ds' where ds: "ds = d # ds'"
    and d: "with_name path (v @ path_suffix path) = Inr d"
    and rest: "map (\<lambda>v. with_name path (v @ path_suffix path)) vs = map Inr ds'"
    by (cases ds) auto
  from Cons.prems ds have free: "\<not> is_file (files self) d" "d \<notin> dirs self"
    and dist: "d \<notin> set ds'" "distinct ds'"
    by auto
  from free Cons.prems(1) have neq: "f \<noteq> d"
    by (auto simp: is_file_def)
  let ?self2 = "say (Copied d) (self\<lparr>files := fmupd d c (files self)\<rparr>)"
  have act: "act path (Some f) d self = (None, ?self2)"
    using free neq Cons.prems(1) by (simp add: act_def copy2_def)
  have "fmlookup (files ?self2) f = Some c"
    using neq Cons.prems(1) by (simp add: say_def)
  moreover have "\<forall>x\<in>set ds'. \<not> is_file (files ?self2) x \<and> x \<notin> dirs ?self2"
    using Cons.prems(4) ds dist by (auto simp: say_def is_file_def)
  ultimately have "rename_values path vs (Some f) ?self2
      = (None, ?self2\<lparr>files := fold (\<lambda>x. fmupd x c) ds' (files ?self2),
                        printed := printed ?self2 @ map Copied ds'\<rparr>)"
    using rest dist by (intro Cons.IH)
  then show ?case
    using d act free by (simp add: destination_free ds say_def)
qed

text \<open>
  With collision avoidance disabled, a destination that exists already is not
  written: here the file reads \<open>A\<close> and \<open>B\<close> and \<open>B.png\<close> exists; the file is renamed
  to \<open>A.png\<close>, and \<open>B.png\<close> keeps its contents.
\<close>

lemma existing_destination_is_skipped:
  "fst (result ascii [''d'', ''scan.png''] reads_A_B (RenameVisitor_init False crowded {})) = None
   \<and> printed (snd (result ascii [''d'', ''scan.png''] reads_A_B (RenameVisitor_init False crowded {})))
       = [Path [''d'', ''scan.png''], Renamed [''d'', ''A.png''], CannotRename [''d'', ''B.png'']]
   \<and> fmlookup (files (snd (result ascii [''d'', ''scan.png''] reads_A_B
         (RenameVisitor_init False crowded {})))) [''d'', ''A.png''] = Some ''scan''
   \<and> fmlookup (files (snd (result ascii [''d'', ''scan.png''] reads_A_B
         (RenameVisitor_init False crowded {})))) [''d'', ''B.png''] = Some ''other''"
  by (simp add: reads_A_B_def RenameVisitor_init_def crowded_def album_def ascii_def
      path_defs sink_defs)

text \<open>
  With collision avoidance enabled and \<open>B.png\<close> taken, the file is renamed to
  \<open>A.png\<close> and \<open>A.png\<close> is copied to \<open>B-1.png\<close>.
\<close>

lemma taken_destination_is_avoided:
  "fst (result ascii [''d'', ''scan.png''] reads_A_B (RenameVisitor_init True crowded {})) = None
   \<and> printed (snd (result ascii [''d'', ''scan.png''] reads_A_B (RenameVisitor_init True crowded {})))
       = [Path [''d'', ''scan.png''], Renamed [''d'', ''A.png''], Copied [''d'', ''B-1.png'']]
   \<and> fmlookup (files (snd (result ascii [''d'', ''scan.png''] reads_A_B
         (RenameVisitor_init True crowded {})))) [''d'', ''scan.png''] = None
   \<and> fmlookup (files (snd (result ascii [''d'', ''scan.png''] reads_A_B
         (RenameVisitor_init True crowded {})))) [''d'', ''A.png''] = Some ''scan''
   \<and> fmlookup (files (snd (result ascii [''d'', ''scan.png''] reads_A_B
         (RenameVisitor_init True crowded {})))) [''d'', ''B-1.png''] = Some ''scan''"
  by (simp add: reads_A_B_def RenameVisitor_init_def crowded_def album_def ascii_def
      path_defs sink_defs destination_loop.simps str.simps)

text \<open>
  Claim C3 is what the sink is meant to do (the comment at lines 150 to 153: the
  file is renamed the first time round the loop, and that new file is copied on the
  later rounds), and the code does not do it when the first destination is taken and
  collision avoidance is disabled. Here the file reads \<open>A\<close> and \<open>B\<close> and another file
  \<open>A.png\<close> exists. The rename is skipped, yet \<open>first_destination\<close> is set to
  \<open>A.png\<close>: the file stays at its original path, and what is copied to \<open>B.png\<close> is
  the other file.
\<close>

theorem first_destination_taken_copies_other_file:
  "fst (result ascii [''d'', ''scan.png''] reads_A_B (RenameVisitor_init False occupied {})) = None
   \<and> printed (snd (result ascii [''d'', ''scan.png''] reads_A_B (RenameVisitor_init False occupied {})))
       = [Path [''d'', ''scan.png''], CannotRename [''d'', ''A.png''], Copied [''d'', ''B.png'']]
   \<and> fmlookup (files (snd (result ascii [''d'', ''scan.png''] reads_A_B
         (RenameVisitor_init False occupied {})))) [''d'', ''scan.png''] = Some ''scan''
   \<and> fmlookup (files (snd (result ascii [''d'', ''scan.png''] reads_A_B
         (RenameVisitor_init False occupied {})))) [''d'', ''A.png''] = Some ''other''
   \<and> fmlookup (files (snd (result ascii [''d'', ''scan.png''] reads_A_B
         (RenameVisitor_init False occupied {})))) [''d'', ''B.png''] = Some ''other''"
  by (simp add: reads_A_B_def RenameVisitor_init_def occupied_def album_def ascii_def
      path_defs sink_defs)

text \<open>
  Where the file exists and the destinations of its barcode values are pairwise
  different and free, no file and no directory being at any of them, the file is
  renamed to the destination of the first value and that destination is then copied,
  contents and metadata, to the destination of each further value, in order;
  afterwards there is no file at the original path and every destination holds what
  the file held. This holds with collision avoidance enabled or disabled.
\<close>

lemma result_renames_then_copies:
  "values_of codec barcodes = Inr (v # vs) \<Longrightarrow>
   fmlookup (files self) path = Some c \<Longrightarrow>
   map (\<lambda>v. with_name path (v @ path_suffix path)) (v # vs) = map Inr (d # ds) \<Longrightarrow>
   distinct (d # ds) \<Longrightarrow>
   \<forall>x\<in>set (d # ds). \<not> is_file (files self) x \<and> x \<notin> dirs self \<Longrightarrow>
   result codec path (Outcome strategy barcodes) self
     = (None, self\<lparr>files := fold (\<lambda>x. fmupd x c) ds (fmupd d c (fmdrop path (files self))),
                     printed := printed self @ [Path path, Renamed d] @ map Copied ds\<rparr>)
   \<and> fmlookup (fold (\<lambda>x. fmupd x c) ds (fmupd d c (fmdrop path (files self)))) path = None
   \<and> (\<forall>x\<in>set (d # ds).
         fmlookup (fold (\<lambda>x. fmupd x c) ds (fmupd d c (fmdrop path (files self)))) x = Some c)"
proof -
  assume vals: "values_of codec barcodes = Inr (v # vs)"
    and src: "fmlookup (files self) path = Some c"
    and names: "map (\<lambda>v. with_name path (v @ path_suffix path)) (v # vs) = map Inr (d # ds)"
    and dist: "distinct (d # ds)"
    and free: "\<forall>x\<in>set (d # ds). \<not> is_file (files self) x \<and> x \<notin> dirs self"
  from vals have ne: "barcodes \<noteq> []" by auto
  from free src have notsrc: "path \<noteq> d" "path \<notin> set ds"
    by (auto simp: is_file_def)
  let ?self0 = "say (Path path) self"
  let ?self1 = "say (Renamed d) (?self0\<lparr>files := fmupd d c (fmdrop path (files self))\<rparr>)"
  have d: "with_name path (v @ path_suffix path) = Inr d"
    and rest: "map (\<lambda>v. with_name path (v @ path_suffix path)) vs = map Inr ds"
    using names by simp_all
  have dfree: "\<not> is_file (files ?self0) d" "d \<notin> dirs ?self0"
    using free by (simp_all add: say_def)
  have act: "act path None d ?self0 = (None, ?self1)"
    using dfree notsrc src by (simp add: act_def rename_def say_def)
  have "fmlookup (files ?self1) d = Some c"
    by (simp add: say_def)
  moreover have "\<forall>x\<in>set ds. \<not> is_file (files ?self1) x \<and> x \<notin> dirs ?self1"
    using free dist by (auto simp: say_def is_file_def)
  ultimately have "rename_values path vs (Some d) ?self1
      = (None, ?self1\<lparr>files := fold (\<lambda>x. fmupd x c) ds (files ?self1),
                        printed := printed ?self1 @ map Copied ds\<rparr>)"
    using rest dist by (intro rename_values_copies) simp_all
  then have "rename_values path (v # vs) None ?self0
      = (None, ?self1\<lparr>files := fold (\<lambda>x. fmupd x c) ds (files ?self1),
                        printed := printed ?self1 @ map Copied ds\<rparr>)"
    using d act dfree by (simp add: destination_free)
  then have "result codec path (Outcome strategy barcodes) self
      = (None, self\<lparr>files := fold (\<lambda>x. fmupd x c) ds (fmupd d c (fmdrop path (files self))),
                      printed := printed self @ [Path path, Renamed d] @ map Copied ds\<rparr>)"
    using vals ne by (simp add: result_def Let_def say_def)
  then show ?thesis
    using notsrc by (simp add: lookup_fold_fmupd)
qed

lemma result_renames_then_copies_example:
  "fst (result ascii [''d'', ''scan.png''] reads_A_B (RenameVisitor_init False album {})) = None
   \<and> printed (snd (result ascii [''d'', ''scan.png''] reads_A_B (RenameVisitor_init False album {})))
       = [Path [''d'', ''scan.png''], Renamed [''d'', ''A.png''], Copied [''d'', ''B.png'']]
   \<and> fmlookup (files (snd (result ascii [''d'', ''scan.png''] reads_A_B
         (RenameVisitor_init False album {})))) [''d'', ''scan.png''] = None
   \<and> fmlookup (files (snd (result ascii [''d'', ''scan.png''] reads_A_B
         (RenameVisitor_init False album {})))) [''d'', ''A.png''] = Some ''scan''
   \<and> fmlookup (files (snd (result ascii [''d'', ''scan.png''] reads_A_B
         (RenameVisitor_init False album {})))) [''d'', ''B.png''] = Some ''scan''"
  using result_renames_then_copies [where codec = ascii
      and barcodes = "[Barcode ''CODE128'' ''A'', Barcode ''CODE128'' ''B'']"
      and v = "''A''" and vs = "[''B'']" and self = "RenameVisitor_init False album {}"
      and path = "[''d'', ''scan.png'']" and c = "''scan''" and d = "[''d'', ''A.png'']"
      and ds = "[[''d'', ''B.png'']]" and strategy = "Some ''roi''"]
  by (simp add: reads_A_B_def RenameVisitor_init_def album_def ascii_def path_defs
      sanitize_def allowed_def is_file_def)

end
